theory Spec2Isabelle
  imports Complex_Main "HOL-Library.Sublist"
begin

section \<open>Strings\<close>

text \<open>
  A JavaScript string is modelled as a \<^typ>\<open>string\<close>, one \<^typ>\<open>char\<close> per
  code unit; a \<^typ>\<open>char\<close> is a code unit below 256, so the strings of the model
  are the Latin-1 strings. On these \<open>toLowerCase\<close> maps \<open>A\<close>..\<open>Z\<close> and the capitals
  \<open>0xC0\<close>..\<open>0xDE\<close> (but not the multiplication sign \<open>0xD7\<close>) to the letter 32 places
  up, and leaves every other code unit as it is; the white space of \<open>trim\<close>, of the
  regular expression class \<open>\s\<close> and of \<open>parseInt\<close> is tab, line feed, vertical tab,
  form feed, carriage return, space and the no-break space \<open>0xA0\<close>.
\<close>

definition upper_letters :: string where
  "upper_letters = ''ABCDEFGHIJKLMNOPQRSTUVWXYZ'' @
     [CHR 0xC0, CHR 0xC1, CHR 0xC2, CHR 0xC3, CHR 0xC4, CHR 0xC5, CHR 0xC6, CHR 0xC7,
      CHR 0xC8, CHR 0xC9, CHR 0xCA, CHR 0xCB, CHR 0xCC, CHR 0xCD, CHR 0xCE, CHR 0xCF,
      CHR 0xD0, CHR 0xD1, CHR 0xD2, CHR 0xD3, CHR 0xD4, CHR 0xD5, CHR 0xD6,
      CHR 0xD8, CHR 0xD9, CHR 0xDA, CHR 0xDB, CHR 0xDC, CHR 0xDD, CHR 0xDE]"

definition lower_letters :: string where
  "lower_letters = ''abcdefghijklmnopqrstuvwxyz'' @
     [CHR 0xE0, CHR 0xE1, CHR 0xE2, CHR 0xE3, CHR 0xE4, CHR 0xE5, CHR 0xE6, CHR 0xE7,
      CHR 0xE8, CHR 0xE9, CHR 0xEA, CHR 0xEB, CHR 0xEC, CHR 0xED, CHR 0xEE, CHR 0xEF,
      CHR 0xF0, CHR 0xF1, CHR 0xF2, CHR 0xF3, CHR 0xF4, CHR 0xF5, CHR 0xF6,
      CHR 0xF8, CHR 0xF9, CHR 0xFA, CHR 0xFB, CHR 0xFC, CHR 0xFD, CHR 0xFE]"

definition lower_char :: "char \<Rightarrow> char" where
  "lower_char c =
     (case map_of (zip upper_letters lower_letters) c of
        Some d \<Rightarrow> d
      | None \<Rightarrow> c)"

definition toLowerCase :: "string \<Rightarrow> string" where
  "toLowerCase s = map lower_char s"

definition is_space :: "char \<Rightarrow> bool" where
  "is_space c =
     (c \<in> set [CHR 0x09, CHR 0x0A, CHR 0x0B, CHR 0x0C, CHR 0x0D, CHR '' '', CHR 0xA0])"

definition trim :: "string \<Rightarrow> string" where
  "trim s = rev (dropWhile is_space (rev (dropWhile is_space s)))"

text \<open>\<open>s.split(/\s+/)\<close>: every maximal run of white space separates two pieces; the
  empty string gives one empty piece.\<close>

function split_ws :: "string \<Rightarrow> string list" where
  "split_ws [] = [[]]"
| "split_ws (c # cs) =
     (if is_space c then [] # split_ws (dropWhile is_space cs)
      else (case split_ws cs of
              [] \<Rightarrow> [[c]]
            | w # ws \<Rightarrow> (c # w) # ws))"
  by pat_completeness auto
termination
  by (relation "measure length") (auto simp: le_imp_less_Suc length_dropWhile_le)

text \<open>\<open>s.split(" ")\<close>: every single space separates two pieces.\<close>

fun split_space :: "string \<Rightarrow> string list" where
  "split_space [] = [[]]"
| "split_space (c # cs) =
     (if c = CHR '' '' then [] # split_space cs
      else (case split_space cs of
              [] \<Rightarrow> [[c]]
            | w # ws \<Rightarrow> (c # w) # ws))"

text \<open>\<open>s.includes(w)\<close>: \<open>w\<close> occurs in \<open>s\<close> as a contiguous block.\<close>

fun str_includes :: "string \<Rightarrow> string \<Rightarrow> bool" where
  "str_includes [] w = (w = [])"
| "str_includes (c # cs) w = (prefix w (c # cs) \<or> str_includes cs w)"

definition is_digit :: "char \<Rightarrow> bool" where
  "is_digit c = (c \<in> set ''0123456789'')"

definition digit_val :: "char \<Rightarrow> int" where
  "digit_val c = (case map_of (zip ''0123456789'' [0, 1, 2, 3, 4, 5, 6, 7, 8, 9]) c of
                    Some d \<Rightarrow> d
                  | None \<Rightarrow> 0)"

text \<open>\<open>parseInt(s, 10)\<close>: leading white space is skipped, one sign is read, then the
  longest run of decimal digits; whatever follows the digits is ignored. No digit gives
  \<open>NaN\<close>, here \<open>None\<close>. The result is the integer the digits denote; JavaScript
  rounds it to a double above \<open>2^53\<close>, which leaves its comparison with the length
  of a list as it is, and the program makes no other use of a number that large.\<close>

definition parseInt :: "string \<Rightarrow> int option" where
  "parseInt s =
     (let s1 = dropWhile is_space s;
          (sign, s2) = (case s1 of
                          [] \<Rightarrow> (1, s1)
                        | c # r \<Rightarrow> (if c = CHR ''-'' then (- 1, r)
                                    else if c = CHR ''+'' then (1, r)
                                    else (1, s1)));
          ds = takeWhile is_digit s2
      in if ds = [] then None
         else Some (sign * foldl (\<lambda>a c. 10 * a + digit_val c) 0 ds))"

section \<open>Types\<close>

record Venue =
  vid :: int
  name :: string
  neighborhood :: string
  city :: string
  cuisine :: "string list"
  rating :: real
  reviews :: int
  price :: int

record Slot =
  start :: string
  end_t :: string
  type_s :: string
  token :: string

record SearchParams =
  query :: string
  location :: string
  lat :: real
  lng :: real
  day :: string
  party_size :: int

section \<open>Parsers\<close>

text \<open>One element of \<open>data.search.hits\<close>; a field that is absent or \<open>null\<close> in the
  response is \<open>None\<close>.\<close>

record Hit =
  hit_id_resy :: "int option"
  hit_name :: "string option"
  hit_neighborhood :: "string option"
  hit_locality :: "string option"
  hit_cuisine :: "string list option"
  hit_rating_average :: "real option"
  hit_rating_count :: "int option"
  hit_price_range_id :: "int option"

definition orElse :: "'a option \<Rightarrow> 'a \<Rightarrow> 'a" where
  "orElse x d = (case x of None \<Rightarrow> d | Some v \<Rightarrow> v)"

definition toVenue :: "Hit \<Rightarrow> Venue" where
  "toVenue h =
     \<lparr> vid = orElse (hit_id_resy h) 0, name = orElse (hit_name h) ''Unknown'',
       neighborhood = orElse (hit_neighborhood h) '''', city = orElse (hit_locality h) '''',
       cuisine = orElse (hit_cuisine h) [], rating = orElse (hit_rating_average h) 0,
       reviews = orElse (hit_rating_count h) 0, price = orElse (hit_price_range_id h) 0 \<rparr>"

definition locWords :: "string \<Rightarrow> string list" where
  "locWords loc_str =
     split_ws (trim (map (\<lambda>c. if c \<in> set '',.-'' then CHR '' '' else c) (toLowerCase loc_str)))"

definition isLocal :: "string \<Rightarrow> Venue \<Rightarrow> bool" where
  "isLocal loc_str v =
     (let vCity = toLowerCase (city v @ '' '' @ neighborhood v)
      in list_ex (\<lambda>w. length w > 2 \<and> str_includes vCity w) (locWords loc_str))"

text \<open>Lines 106 to 118 of \<open>parseVenues\<close>: the post-filter on the mapped hits.\<close>

definition postFilter :: "string \<Rightarrow> Venue list \<Rightarrow> Venue list" where
  "postFilter loc_str all_v =
     (let local = filter (isLocal loc_str) all_v
      in take 5 (if length local > 0 then local else all_v))"

text \<open>\<open>data\<close> is \<open>data?.search?.hits\<close>, \<open>None\<close> when that is \<open>null\<close> or undefined.\<close>

definition parseVenues :: "Hit list option \<Rightarrow> string \<Rightarrow> Venue list" where
  "parseVenues data loc_str = postFilter loc_str (map toVenue (orElse data []))"

text \<open>
  One element of \<open>data.results.venues\<close> of the availability response, and one element
  of its \<open>slots\<close>.
\<close>

record RawSlot =
  rs_date_start :: "string option"
  rs_date_end :: "string option"
  rs_config_type :: "string option"
  rs_config_token :: "string option"

record AvailVenue =
  av_venue_id_resy :: "int option"
  av_slots :: "RawSlot list option"

text \<open>\<open>d?.split(" ")[1]?.slice(0, 5) ?? "??:??"\<close>\<close>

definition clock :: "string option \<Rightarrow> string" where
  "clock d =
     (case d of
        None \<Rightarrow> ''??:??''
      | Some t \<Rightarrow> (case split_space t of
                    a # b # rest \<Rightarrow> take 5 b
                  | _ \<Rightarrow> ''??:??''))"

definition toSlot :: "RawSlot \<Rightarrow> Slot" where
  "toSlot r =
     \<lparr> start = clock (rs_date_start r), end_t = clock (rs_date_end r),
       type_s = orElse (rs_config_type r) ''Standard'',
       token = orElse (rs_config_token r) '''' \<rparr>"

text \<open>\<open>data\<close> is \<open>data?.results?.venues\<close>.\<close>

definition parseSlots :: "AvailVenue list option \<Rightarrow> int \<Rightarrow> Slot list" where
  "parseSlots data venueId =
     (let vs = orElse data [];
          v = (case find (\<lambda>v. av_venue_id_resy v = Some venueId) vs of
                 Some x \<Rightarrow> Some x
               | None \<Rightarrow> (case vs of [] \<Rightarrow> None | x # rest \<Rightarrow> Some x))
      in case v of
           None \<Rightarrow> []
         | Some v \<Rightarrow> map toSlot (orElse (av_slots v) []))"

section \<open>The session\<close>

datatype Step = idle | venue_list | slot_list | confirm

text \<open>A JavaScript \<open>Date\<close>: milliseconds since the epoch, or an invalid date, which
  compares false with every date.\<close>

datatype date = Date int | InvalidDate

record State =
  step :: Step
  search :: "SearchParams option"
  venues :: "Venue list option"
  pickedVenue :: "Venue option"
  slots :: "Slot list option"
  pickedSlot :: "Slot option"
  bookToken :: "string option"
  bookExpires :: "date option"

definition reset :: State where
  "reset = \<lparr> step = idle, search = None, venues = None, pickedVenue = None, slots = None,
             pickedSlot = None, bookToken = None, bookExpires = None \<rparr>"

section \<open>The reservation service\<close>

text \<open>
  A thrown value. \<open>Error m\<close> is \<open>new Error(m)\<close>. \<open>HttpError l n\<close> is the error with
  message \<open>l (n)\<close> that \<open>apiSearch\<close>, \<open>apiAvailability\<close> and \<open>apiDetails\<close> throw on a
  status that is not ok, and \<open>BookingFailed n t\<close> the one with message
  \<open>Booking failed (n): t\<close>; no such message is \<open>PAYMENT_REQUIRED\<close>. \<open>TypeError\<close> is the
  error of reading a property of \<open>undefined\<close>.
\<close>

datatype error = Error string | HttpError string nat | BookingFailed nat string | TypeError

record 'a response =
  status :: nat
  body_text :: string
  body_json :: "error + 'a"

definition ok :: "'a response \<Rightarrow> bool" where
  "ok res = (200 \<le> status res \<and> status res \<le> 299)"

text \<open>The body of the details response: \<open>book_token.value\<close>, \<open>book_token.date_expires\<close>,
  \<open>payment.amounts.total\<close> and \<open>cancellation.display.policy[0]\<close>.\<close>

record Details =
  book_token_value :: "string option"
  book_token_date_expires :: "string option"
  payment_total :: "real option"
  cancellation_policy :: "string option"

text \<open>
  What lies outside the program: the language model behind \<open>extractSearch\<close>, the four
  endpoints behind \<open>fetch\<close> (each may throw or answer with a status and a body), the
  parser of \<open>new Date(s)\<close> and the wall clock read by \<open>new Date()\<close>.
\<close>

record env =
  extractSearch :: "string \<Rightarrow> error + SearchParams"
  fetchSearch :: "string \<Rightarrow> string \<Rightarrow> real \<Rightarrow> real \<Rightarrow> error + Hit list option response"
  fetchAvailability ::
    "int \<Rightarrow> string \<Rightarrow> int \<Rightarrow> real \<Rightarrow> real \<Rightarrow> error + AvailVenue list option response"
  fetchDetails :: "string \<Rightarrow> string \<Rightarrow> int \<Rightarrow> error + Details response"
  fetchBook :: "string \<Rightarrow> error + string option response"
  newDate :: "string \<Rightarrow> date"
  now :: int

definition apiSearch ::
  "env \<Rightarrow> string \<Rightarrow> string \<Rightarrow> real \<Rightarrow> real \<Rightarrow> error + Hit list option" where
  "apiSearch e q l la lo =
     (case fetchSearch e q l la lo of
        Inl err \<Rightarrow> Inl err
      | Inr res \<Rightarrow> if \<not> ok res then Inl (HttpError ''Resy search failed'' (status res))
                  else body_json res)"

definition apiAvailability ::
  "env \<Rightarrow> int \<Rightarrow> string \<Rightarrow> int \<Rightarrow> real \<Rightarrow> real \<Rightarrow> error + AvailVenue list option" where
  "apiAvailability e venueId d partySize la lo =
     (case fetchAvailability e venueId d partySize la lo of
        Inl err \<Rightarrow> Inl err
      | Inr res \<Rightarrow> if \<not> ok res then Inl (HttpError ''Resy availability failed'' (status res))
                  else body_json res)"

definition apiDetails :: "env \<Rightarrow> string \<Rightarrow> string \<Rightarrow> int \<Rightarrow> error + Details" where
  "apiDetails e configToken d partySize =
     (case fetchDetails e configToken d partySize of
        Inl err \<Rightarrow> Inl err
      | Inr res \<Rightarrow> if \<not> ok res then Inl (HttpError ''Resy details failed'' (status res))
                  else body_json res)"

definition apiBook :: "env \<Rightarrow> string \<Rightarrow> error + string option" where
  "apiBook e tok =
     (case fetchBook e tok of
        Inl err \<Rightarrow> Inl err
      | Inr res \<Rightarrow> if status res = 402 then Inl (Error ''PAYMENT_REQUIRED'')
                  else if \<not> ok res then Inl (BookingFailed (status res) (body_text res))
                  else body_json res)"

section \<open>The message handler\<close>

text \<open>
  A reply, before it is rendered as text: one constructor for each string
  \<open>handleMessage\<close> returns, holding the arguments of its formatter. The formatters
  (\<open>fmtVenueList\<close>, \<open>fmtSlotList\<close>, \<open>fmtConfirm\<close>, \<open>fmtSuccess\<close>) and the literal
  messages are presentation; the gateway below takes the rendering as a parameter.
  \<open>ErrorReply\<close> is the reply the gateway builds from a thrown error.
\<close>

datatype reply =
    StartingFresh
  | NoResults string string
  | VenueList "Venue list" SearchParams
  | WhatSearch
  | SlotList Venue "Slot list" string int
  | PickNumber nat
  | SlotTaken
  | Confirm Venue Slot string int Details
  | NoProblem Venue "Slot list" string int
  | HoldExpired Venue "Slot list" string int
  | Success Venue Slot string int "string option"
  | PaymentRequired string
  | YesNoPrompt
  | ErrorReply error

text \<open>The calls a turn makes on the outside, in order.\<close>

datatype call =
    ExtractSearch string
  | ApiSearch string string real real
  | ApiAvailability int string int real real
  | ApiDetails string string int
  | ApiBook string

text \<open>The result of a turn: the session as the turn leaves it (also when the turn
  throws), the calls made, and the error thrown or the reply returned.\<close>

type_synonym outcome = "State \<times> call list \<times> (error + reply)"

text \<open>\<open>isNaN(num) || num < 1 || num > n\<close>\<close>

definition invalid_choice :: "int option \<Rightarrow> nat \<Rightarrow> bool" where
  "invalid_choice num n = (case num of None \<Rightarrow> True | Some k \<Rightarrow> k < 1 \<or> k > int n)"

text \<open>\<open>fmtSlotList(state.pickedVenue!, state.slots!, state.search!.day,
  state.search!.party_size)\<close> under a heading \<open>k\<close>: a field that is undefined makes
  the formatter, or the read of \<open>.day\<close>, throw.\<close>

definition slotListOf :: "State \<Rightarrow> (Venue \<Rightarrow> Slot list \<Rightarrow> string \<Rightarrow> int \<Rightarrow> reply) \<Rightarrow> error + reply" where
  "slotListOf st k =
     (case search st of
        None \<Rightarrow> Inl TypeError
      | Some s \<Rightarrow> (case slots st of
                    None \<Rightarrow> Inl TypeError
                  | Some sl \<Rightarrow> (case pickedVenue st of
                                 None \<Rightarrow> Inl TypeError
                               | Some v \<Rightarrow> Inr (k v sl (day s) (party_size s)))))"

text \<open>Step \<open>idle\<close> (lines 238 to 252).\<close>

definition stepIdle :: "env \<Rightarrow> State \<Rightarrow> string \<Rightarrow> outcome" where
  "stepIdle e st txt =
     (case extractSearch e txt of
        Inl err \<Rightarrow> (st, [ExtractSearch txt], Inl err)
      | Inr s \<Rightarrow>
          (let cs = [ExtractSearch txt, ApiSearch (query s) (location s) (lat s) (lng s)]
           in case apiSearch e (query s) (location s) (lat s) (lng s) of
                Inl err \<Rightarrow> (st, cs, Inl err)
              | Inr data \<Rightarrow>
                  (let vs = parseVenues data (location s)
                   in if length vs = 0 then (st, cs, Inr (NoResults (query s) (location s)))
                      else (\<lparr> step = venue_list, search = Some s, venues = Some vs,
                               pickedVenue = None, slots = None, pickedSlot = None,
                               bookToken = None, bookExpires = None \<rparr>,
                            cs, Inr (VenueList vs s)))))"

text \<open>Step \<open>venue_list\<close> once the number is in range (lines 269 to 277).\<close>

definition stepVenuePicked :: "env \<Rightarrow> State \<Rightarrow> int \<Rightarrow> outcome" where
  "stepVenuePicked e st num =
     (let venue = orElse (venues st) [] ! nat (num - 1)
      in case search st of
           None \<Rightarrow> (st, [], Inl TypeError)
         | Some s \<Rightarrow>
             (let cs = [ApiAvailability (vid venue) (day s) (party_size s) (lat s) (lng s)]
              in case apiAvailability e (vid venue) (day s) (party_size s) (lat s) (lng s) of
                   Inl err \<Rightarrow> (st, cs, Inl err)
                 | Inr data \<Rightarrow>
                     (let sl = parseSlots data (vid venue)
                      in (st\<lparr>step := slot_list, pickedVenue := Some venue, slots := Some sl\<rparr>,
                          cs, Inr (SlotList venue sl (day s) (party_size s))))))"

text \<open>Step \<open>slot_list\<close> (lines 281 to 309).\<close>

definition stepSlotList :: "env \<Rightarrow> State \<Rightarrow> string \<Rightarrow> outcome" where
  "stepSlotList e st lower =
     (if lower = ''back'' then
        (let st' = st\<lparr>step := venue_list, pickedVenue := None, slots := None\<rparr>
         in (st', [],
             case venues st' of
               None \<Rightarrow> Inl TypeError
             | Some vs \<Rightarrow> (case search st' of
                            None \<Rightarrow> Inl TypeError
                          | Some s \<Rightarrow> Inr (VenueList vs s))))
      else
        (let maxSlots = min (length (orElse (slots st) [])) 10;
             num = parseInt lower
         in if invalid_choice num maxSlots then (st, [], Inr (PickNumber maxSlots))
            else
              (let slot = orElse (slots st) [] ! nat (the num - 1)
               in case pickedVenue st of
                    None \<Rightarrow> (st, [], Inl TypeError)
                  | Some venue \<Rightarrow>
                      (case search st of
                         None \<Rightarrow> (st, [], Inl TypeError)
                       | Some s \<Rightarrow>
                           (let cs = [ApiDetails (token slot) (day s) (party_size s)]
                            in case apiDetails e (token slot) (day s) (party_size s) of
                                 Inl err \<Rightarrow> (st, cs, Inl err)
                               | Inr details \<Rightarrow>
                                   (let tok = book_token_value details;
                                        expires =
                                          (case book_token_date_expires details of
                                             None \<Rightarrow> None
                                           | Some d \<Rightarrow> if d = [] then None
                                                       else Some (newDate e d))
                                    in if tok = None \<or> tok = Some [] then (st, cs, Inr SlotTaken)
                                       else (st\<lparr>step := confirm, pickedSlot := Some slot,
                                                 bookToken := tok, bookExpires := expires\<rparr>,
                                             cs,
                                             Inr (Confirm venue slot (day s) (party_size s)
                                                    details))))))))"

text \<open>\<open>state.bookExpires && new Date() > state.bookExpires\<close>\<close>

definition expired :: "env \<Rightarrow> State \<Rightarrow> bool" where
  "expired e st = (case bookExpires st of
                     None \<Rightarrow> False
                   | Some InvalidDate \<Rightarrow> False
                   | Some (Date t) \<Rightarrow> now e > t)"

text \<open>Step \<open>confirm\<close> (lines 312 to 343). A booking token that is undefined reaches the
  request body as the text \<open>undefined\<close>.\<close>

definition stepConfirm :: "env \<Rightarrow> State \<Rightarrow> string \<Rightarrow> outcome" where
  "stepConfirm e st lower =
     (if lower = ''no'' \<or> lower = ''back'' then
        (let st' = st\<lparr>step := slot_list, pickedSlot := None, bookToken := None,
                       bookExpires := None\<rparr>
         in (st', [], slotListOf st' NoProblem))
      else if lower = ''yes'' \<or> lower = ''confirm'' \<or> lower = ''book'' then
        (if expired e st then
           (let st' = st\<lparr>step := slot_list, pickedSlot := None, bookToken := None\<rparr>
            in (st', [], slotListOf st' HoldExpired))
         else
           (case pickedVenue st of
              None \<Rightarrow> (st, [], Inl TypeError)
            | Some venue \<Rightarrow>
                (case pickedSlot st of
                   None \<Rightarrow> (st, [], Inl TypeError)
                 | Some slot \<Rightarrow>
                     (let tok = orElse (bookToken st) ''undefined'';
                          cs = [ApiBook tok]
                      in case apiBook e tok of
                           Inr result \<Rightarrow>
                             (case search st of
                                None \<Rightarrow> (st, cs, Inl TypeError)
                              | Some s \<Rightarrow>
                                  (reset, cs,
                                   Inr (Success venue slot (day s) (party_size s) result)))
                         | Inl err \<Rightarrow>
                             if err = Error ''PAYMENT_REQUIRED'' then
                               (st\<lparr>step := slot_list, pickedSlot := None, bookToken := None\<rparr>,
                                cs, Inr (PaymentRequired (name venue)))
                             else (st, cs, Inl err)))))
      else (st, [], Inr YesNoPrompt))"

text \<open>\<open>handleMessage\<close>, with the session passed in and returned. The two recursive
  calls are the source's \<open>reset(); return await handleMessage(text)\<close>.\<close>

function handleMessage :: "env \<Rightarrow> State \<Rightarrow> string \<Rightarrow> outcome" where
  "handleMessage e st txt =
     (let lower = trim (toLowerCase txt)
      in if lower = ''reset'' \<or> lower = ''start over'' then (reset, [], Inr StartingFresh)
         else if step st = idle then stepIdle e st txt
         else if step st = venue_list then
           (if lower = ''back'' then (reset, [], Inr WhatSearch)
            else if invalid_choice (parseInt lower) (length (orElse (venues st) []))
              then handleMessage e reset txt
            else stepVenuePicked e st (the (parseInt lower)))
         else if step st = slot_list then stepSlotList e st lower
         else if step st = confirm then stepConfirm e st lower
         else handleMessage e reset txt)"
  by pat_completeness auto
termination
  by (relation "measure (\<lambda>(e, st, txt). if step st = idle then 0 else 1)")
     (auto simp: reset_def)

declare handleMessage.simps [simp del]

section \<open>The gateway\<close>

text \<open>An event of the transport; \<open>msg_text\<close> and \<open>chatId\<close> may be missing.\<close>

record Message =
  isFromMe :: bool
  msg_text :: "string option"
  isReaction :: bool
  chatId :: "string option"
  sender :: string
  guid :: string

text \<open>
  The module variables of the watcher. \<open>session\<close> is the variable \<open>state\<close>.
  \<open>botSentTexts\<close> is a JavaScript \<open>Set\<close>, which iterates in insertion order: a list
  without repetition, \<open>add\<close> appending and \<open>delete\<close> removing.
\<close>

record Gateway =
  session :: State
  botSentTexts :: "string list"
  seenGuids :: "string set"
  processing :: bool

definition set_add :: "'a \<Rightarrow> 'a list \<Rightarrow> 'a list" where
  "set_add x xs = (if x \<in> set xs then xs else xs @ [x])"

definition set_delete :: "'a \<Rightarrow> 'a list \<Rightarrow> 'a list" where
  "set_delete x xs = removeAll x xs"

text \<open>Lines 384 to 388: the pending text an inbound text is taken as the echo of, the
  text itself when it is pending, else the oldest pending text with the same first 200
  characters.\<close>

definition echoOf :: "string list \<Rightarrow> string \<Rightarrow> string option" where
  "echoOf pending t =
     (if t \<in> set pending then Some t
      else find (\<lambda>sent. take 200 sent = take 200 t) pending)"

text \<open>Lines 373 to 377: the event is from the user's own account, has a text, is not a
  reaction, belongs to the configured chat, and its trimmed text is not empty.\<close>

definition inScope :: "string \<Rightarrow> Message \<Rightarrow> bool" where
  "inScope myId msg =
     (if \<not> isFromMe msg \<or> msg_text msg = None \<or> msg_text msg = Some [] \<or> isReaction msg
        then False
      else if myId \<noteq> [] \<and> chatId msg \<noteq> None \<and> chatId msg \<noteq> Some []
              \<and> \<not> str_includes (orElse (chatId msg) []) myId
        then False
      else trim (orElse (msg_text msg) []) \<noteq> [])"

text \<open>How the part of \<open>onMessage\<close> before its first \<open>await\<close> ends: at one of its four
  returns, or with \<open>processing = true\<close> and the text to handle.\<close>

datatype admission = Ignored | Duplicate | Echo | Busy | Admitted string

definition admit :: "string \<Rightarrow> Gateway \<Rightarrow> Message \<Rightarrow> Gateway \<times> admission" where
  "admit myId g msg =
     (if \<not> inScope myId msg then (g, Ignored)
      else
        (let t = trim (orElse (msg_text msg) [])
         in if guid msg \<in> seenGuids g then (g, Duplicate)
            else
              (let g1 = g\<lparr>seenGuids := insert (guid msg) (seenGuids g)\<rparr>
               in case echoOf (botSentTexts g1) t of
                    Some sent \<Rightarrow>
                      (g1\<lparr>botSentTexts := set_delete sent (botSentTexts g1)\<rparr>, Echo)
                  | None \<Rightarrow>
                      if processing g1 then (g1, Busy)
                      else (g1\<lparr>processing := True\<rparr>, Admitted t))))"

text \<open>What a turn does that can be observed: the call of \<open>handleMessage\<close>, its calls
  on the outside, and the calls of \<open>sdk.send\<close>.\<close>

datatype effect = HandleMessage string | Outside call | Send string string

text \<open>The transport's \<open>send\<close>, which may throw, and the rendering of replies.\<close>

record transport =
  send :: "string \<Rightarrow> string \<Rightarrow> error option"
  render :: "reply \<Rightarrow> string"

text \<open>The \<open>catch\<close> and \<open>finally\<close> blocks (lines 401 to 408); the last component is the
  error that leaves \<open>onMessage\<close> when the second \<open>send\<close> throws too.\<close>

definition failed ::
  "transport \<Rightarrow> Gateway \<Rightarrow> string \<Rightarrow> error \<Rightarrow> effect list \<Rightarrow> Gateway \<times> effect list \<times> error option" where
  "failed tr g dest err fx =
     (let errReply = render tr (ErrorReply err);
          g1 = g\<lparr>botSentTexts := set_add errReply (botSentTexts g)\<rparr>
      in (g1\<lparr>processing := False\<rparr>, fx @ [Send dest errReply], send tr dest errReply))"

text \<open>The \<open>try\<close> block (lines 396 to 400) with its \<open>catch\<close> and \<open>finally\<close>.\<close>

definition turn ::
  "transport \<Rightarrow> env \<Rightarrow> Gateway \<Rightarrow> Message \<Rightarrow> string \<Rightarrow> Gateway \<times> effect list \<times> error option" where
  "turn tr e g msg t =
     (let dest = (if chatId msg = None \<or> chatId msg = Some [] then sender msg
                  else orElse (chatId msg) []);
          (st, cs, r) = handleMessage e (session g) t;
          g1 = g\<lparr>session := st\<rparr>;
          fx = HandleMessage t # map Outside cs
      in case r of
           Inl err \<Rightarrow> failed tr g1 dest err fx
         | Inr rep \<Rightarrow>
             (let g2 = g1\<lparr>botSentTexts := set_add (render tr rep) (botSentTexts g1)\<rparr>
              in case send tr dest (render tr rep) of
                   None \<Rightarrow> (g2\<lparr>processing := False\<rparr>, fx @ [Send dest (render tr rep)], None)
                 | Some err \<Rightarrow> failed tr g2 dest err (fx @ [Send dest (render tr rep)])))"

text \<open>\<open>onMessage\<close> when nothing else arrives before it ends.\<close>

definition onMessage ::
  "string \<Rightarrow> transport \<Rightarrow> env \<Rightarrow> Gateway \<Rightarrow> Message \<Rightarrow> Gateway \<times> effect list \<times> error option" where
  "onMessage myId tr e g msg =
     (case admit myId g msg of
        (g1, a) \<Rightarrow> (case a of
                      Admitted t \<Rightarrow> turn tr e g1 msg t
                    | _ \<Rightarrow> (g1, [], None)))"

text \<open>
  The watcher over time. An event that arrives runs \<open>onMessage\<close> up to its first
  \<open>await\<close>, which is \<open>admit\<close>; a turn that was admitted ends later, on the gateway as
  the events that arrived in between have left it.
\<close>

inductive gw_step :: "string \<Rightarrow> transport \<Rightarrow> Gateway \<Rightarrow> Gateway \<Rightarrow> bool"
  for myId :: string and tr :: transport where
  arrive: "gw_step myId tr g (fst (admit myId g msg))"
| finish: "processing g \<Longrightarrow> gw_step myId tr g (fst (turn tr e g msg t))"

definition gw_steps :: "string \<Rightarrow> transport \<Rightarrow> Gateway \<Rightarrow> Gateway \<Rightarrow> bool" where
  "gw_steps myId tr = (gw_step myId tr)\<^sup>*\<^sup>*"

section \<open>Sessions the program can be in\<close>

definition state_of :: "outcome \<Rightarrow> State" where
  "state_of out = fst out"

definition calls_of :: "outcome \<Rightarrow> call list" where
  "calls_of out = fst (snd out)"

definition result_of :: "outcome \<Rightarrow> error + reply" where
  "result_of out = snd (snd out)"

text \<open>The session at start is \<open>reset\<close>; every turn, whatever the outside answers,
  leaves a session the program can be in.\<close>

inductive reachable :: "State \<Rightarrow> bool" where
  start: "reachable reset"
| turn: "reachable st \<Longrightarrow> reachable (state_of (handleMessage e st txt))"

text \<open>The session after a sequence of turns from the start, each turn with the outside
  as it is at that turn.\<close>

definition run :: "(env \<times> string) list \<Rightarrow> State" where
  "run turns = foldl (\<lambda>st (e, txt). state_of (handleMessage e st txt)) reset turns"

text \<open>
  The session \<open>st\<close> holds the pick made by the turn \<open>(e, inp)\<close> after the turns \<open>pre\<close>:
  that turn found the session in step \<open>venue_list\<close>, read \<open>inp\<close> as a number within the
  list and had an answer to the availability call for the venue of that number; every
  turn of \<open>post\<close> has left the session in \<open>slot_list\<close> or \<open>confirm\<close>; and \<open>st\<close> has that
  venue and the slots parsed from that answer.
\<close>

definition holds_pick ::
  "(env \<times> string) list \<Rightarrow> env \<Rightarrow> string \<Rightarrow> (env \<times> string) list \<Rightarrow> State \<Rightarrow> bool" where
  "holds_pick pre e inp post st =
     (\<exists>k vs s data.
         step (run pre) = venue_list \<and> venues (run pre) = Some vs \<and> search (run pre) = Some s
       \<and> parseInt (trim (toLowerCase inp)) = Some k \<and> 1 \<le> k \<and> k \<le> int (length vs)
       \<and> apiAvailability e (vid (vs ! nat (k - 1))) (day s) (party_size s) (lat s) (lng s)
            = Inr data
       \<and> (\<forall>q. prefix q post \<longrightarrow> step (run (pre @ (e, inp) # q)) \<in> {slot_list, confirm})
       \<and> pickedVenue st = Some (vs ! nat (k - 1))
       \<and> slots st = Some (parseSlots data (vid (vs ! nat (k - 1)))))"

text \<open>The fields each step reads are set in that step.\<close>

definition populated :: "State \<Rightarrow> bool" where
  "populated st =
     (case step st of
        idle \<Rightarrow> True
      | venue_list \<Rightarrow> search st \<noteq> None \<and> venues st \<noteq> None
      | slot_list \<Rightarrow> search st \<noteq> None \<and> venues st \<noteq> None \<and> pickedVenue st \<noteq> None
                      \<and> slots st \<noteq> None
      | confirm \<Rightarrow> search st \<noteq> None \<and> venues st \<noteq> None \<and> pickedVenue st \<noteq> None
                    \<and> slots st \<noteq> None \<and> pickedSlot st \<noteq> None \<and> bookToken st \<noteq> None)"

section \<open>The location filter in the words of the specification\<close>

text \<open>
  Two letters are the same up to case when they are equal or one is the capital of the
  other. A text includes a word case-insensitively when some contiguous part of the text
  is the word, letter by letter, up to case.
\<close>

definition same_letter :: "char \<Rightarrow> char \<Rightarrow> bool" where
  "same_letter c d =
     (c = d \<or> (c, d) \<in> set (zip upper_letters lower_letters)
            \<or> (d, c) \<in> set (zip upper_letters lower_letters))"

definition caseless_includes :: "string \<Rightarrow> string \<Rightarrow> bool" where
  "caseless_includes s w = (\<exists>ps u ss. s = ps @ u @ ss \<and> list_all2 same_letter w u)"

text \<open>
  The words of a location are its maximal runs of characters that are neither white
  space nor one of comma, full stop and hyphen: a run is maximal when it starts the
  string or follows a separator, and ends the string or is followed by a separator.
  \<open>after_sep P s\<close> holds what follows each separator in \<open>s\<close>.
\<close>

definition is_separator :: "char \<Rightarrow> bool" where
  "is_separator c = (is_space c \<or> c \<in> set '',.-'')"

definition block :: "(char \<Rightarrow> bool) \<Rightarrow> string \<Rightarrow> string \<Rightarrow> bool" where
  "block P s w =
     (w \<noteq> [] \<and> (\<forall>c \<in> set w. \<not> P c)
      \<and> (\<exists>ps ss. s = ps @ w @ ss \<and> (ps = [] \<or> P (last ps)) \<and> (ss = [] \<or> P (hd ss))))"

definition after_sep :: "(char \<Rightarrow> bool) \<Rightarrow> string \<Rightarrow> string set" where
  "after_sep P s = {r. \<exists>ps c. s = ps @ c # r \<and> P c}"

definition location_word :: "string \<Rightarrow> string \<Rightarrow> bool" where
  "location_word l w = block is_separator l w"

section \<open>The slots of a venue in the words of the specification\<close>

text \<open>
  The entry of an availability response chosen for a venue: the first entry with the
  venue's identifier, or the first entry of all when no entry has the identifier.
\<close>

definition chosen_entry :: "AvailVenue list \<Rightarrow> int \<Rightarrow> AvailVenue \<Rightarrow> bool" where
  "chosen_entry vs i v =
     ((\<exists>k < length vs. v = vs ! k \<and> av_venue_id_resy v = Some i
          \<and> (\<forall>j < k. av_venue_id_resy (vs ! j) \<noteq> Some i))
      \<or> ((\<forall>u \<in> set vs. av_venue_id_resy u \<noteq> Some i) \<and> vs \<noteq> [] \<and> v = hd vs))"

section \<open>Example data\<close>

definition mkHit :: "int \<Rightarrow> string \<Rightarrow> string \<Rightarrow> string \<Rightarrow> Hit" where
  "mkHit i n c nb =
     \<lparr> hit_id_resy = Some i, hit_name = Some n, hit_neighborhood = Some nb,
       hit_locality = Some c, hit_cuisine = None, hit_rating_average = None,
       hit_rating_count = None, hit_price_range_id = None \<rparr>"

definition demoHits :: "Hit list" where
  "demoHits = [mkHit 1 ''Lucali'' ''New York'' ''Carroll Gardens'',
               mkHit 2 ''Pizzeria Beddia'' ''Philadelphia'' ''Fishtown'',
               mkHit 3 ''Rubirosa'' ''New York'' ''Nolita'']"

definition demoSearch :: SearchParams where
  "demoSearch = \<lparr> query = ''pizza'', location = ''New York, NY'', lat = 0, lng = 0,
                   day = ''2024-06-02'', party_size = 2 \<rparr>"

definition venueA :: Venue where
  "venueA = \<lparr> vid = 1, name = ''Lucali'', neighborhood = ''Carroll Gardens'',
               city = ''New York'', cuisine = [], rating = 0, reviews = 0, price = 0 \<rparr>"

definition venueB :: Venue where
  "venueB = \<lparr> vid = 3, name = ''Rubirosa'', neighborhood = ''Nolita'',
               city = ''New York'', cuisine = [], rating = 0, reviews = 0, price = 0 \<rparr>"

definition demoRawSlot :: RawSlot where
  "demoRawSlot = \<lparr> rs_date_start = Some ''2024-06-02 19:00:00'',
                    rs_date_end = Some ''2024-06-02 20:30:00'',
                    rs_config_type = Some ''Dining Room'', rs_config_token = Some ''cfg'' \<rparr>"

definition demoSlot :: Slot where
  "demoSlot = \<lparr> start = ''19:00'', end_t = ''20:30'', type_s = ''Dining Room'',
                 token = ''cfg'' \<rparr>"

definition demoDetails :: Details where
  "demoDetails = \<lparr> book_token_value = Some ''tok'',
                    book_token_date_expires = Some ''2024-06-02T19:05:00Z'',
                    payment_total = None, cancellation_policy = None \<rparr>"

text \<open>An outside where the search finds \<open>demoHits\<close>, the first venue has eleven open
  slots, the hold ends at time 1000, the clock reads 2000 and the booking needs a
  payment.\<close>

definition demoEnv :: env where
  "demoEnv =
     \<lparr> extractSearch = (\<lambda>t. Inr demoSearch),
       fetchSearch = (\<lambda>q l la lo.
         Inr \<lparr> status = 200, body_text = [], body_json = Inr (Some demoHits) \<rparr>),
       fetchAvailability = (\<lambda>i d p la lo.
         Inr \<lparr> status = 200, body_text = [],
               body_json = Inr (Some [\<lparr> av_venue_id_resy = Some 1,
                                         av_slots = Some (replicate 11 demoRawSlot) \<rparr>]) \<rparr>),
       fetchDetails = (\<lambda>c d p.
         Inr \<lparr> status = 200, body_text = [], body_json = Inr demoDetails \<rparr>),
       fetchBook = (\<lambda>t. Inr \<lparr> status = 402, body_text = [], body_json = Inr None \<rparr>),
       newDate = (\<lambda>s. Date 1000),
       now = 2000 \<rparr>"

definition listState :: State where
  "listState = \<lparr> step = venue_list, search = Some demoSearch,
                  venues = Some [venueA, venueB], pickedVenue = None, slots = None,
                  pickedSlot = None, bookToken = None, bookExpires = None \<rparr>"

definition confirmState :: State where
  "confirmState = \<lparr> step = confirm, search = Some demoSearch,
                     venues = Some [venueA, venueB], pickedVenue = Some venueA,
                     slots = Some (replicate 11 demoSlot), pickedSlot = Some demoSlot,
                     bookToken = Some ''tok'', bookExpires = Some (Date 1000) \<rparr>"

definition demoTransport :: transport where
  "demoTransport = \<lparr> send = (\<lambda>dest t. None), render = (\<lambda>r. ''reply'') \<rparr>"

definition demoMsg :: "string \<Rightarrow> string \<Rightarrow> Message" where
  "demoMsg g t = \<lparr> isFromMe = True, msg_text = Some t, isReaction = False,
                    chatId = Some ''me'', sender = ''me'', guid = g \<rparr>"

definition startGateway :: Gateway where
  "startGateway = \<lparr> session = reset, botSentTexts = [], seenGuids = {},
                     processing = False \<rparr>"

text \<open>The gateway after the user's \<open>reset\<close> (event \<open>a\<close>), the echo of the reply
  (event \<open>b\<close>) and a second \<open>reset\<close> (event \<open>c\<close>), whose reply is pending.\<close>

definition demoGateway :: Gateway where
  "demoGateway = \<lparr> session = reset, botSentTexts = [''reply''],
                    seenGuids = {''c'', ''b'', ''a''}, processing = False \<rparr>"

definition elevenSlotsState :: State where
  "elevenSlotsState =
     state_of (handleMessage demoEnv (state_of (handleMessage demoEnv reset ''pizza'')) ''1'')"

definition busyGateway :: Gateway where
  "busyGateway = demoGateway\<lparr>processing := True\<rparr>"

definition consumedGateway :: Gateway where
  "consumedGateway = busyGateway\<lparr>seenGuids := insert ''g2'' (seenGuids busyGateway)\<rparr>"

definition laterGateway :: Gateway where
  "laterGateway = fst (turn demoTransport demoEnv consumedGateway (demoMsg ''g0'' ''reset'') ''reset'')"

definition echoedGateway :: Gateway where
  "echoedGateway = demoGateway\<lparr>seenGuids := insert ''g3'' (seenGuids demoGateway),
                                botSentTexts := []\<rparr>"

text \<open>Two pending replies that differ after their first 200 characters only.\<close>

definition longReply :: "char \<Rightarrow> string" where
  "longReply c = replicate 200 (CHR ''x'') @ [c]"

definition twoPending :: Gateway where
  "twoPending = \<lparr> session = reset,
                    botSentTexts = [longReply (CHR ''1''), longReply (CHR ''2'')],
                    seenGuids = {}, processing = False \<rparr>"

text \<open>Three pending replies, the last two with the same first 200 characters.\<close>

definition threePending :: Gateway where
  "threePending = \<lparr> session = reset,
                      botSentTexts = [''reply'', longReply (CHR ''1''), longReply (CHR ''2'')],
                      seenGuids = {}, processing = False \<rparr>"

definition montreal :: string where
  "montreal = ''Montr'' @ [CHR 0xE9] @ ''al''"

definition manyHits :: "Hit list" where
  "manyHits = [mkHit 1 ''Lucali'' ''New York'' ''Carroll Gardens'',
               mkHit 2 ''Pizzeria Beddia'' ''Philadelphia'' ''Fishtown'',
               mkHit 3 ''Rubirosa'' ''NEW YORK'' ''Nolita'',
               mkHit 4 ''Via Carota'' ''new york'' ''West Village'',
               mkHit 5 ''Joe and Pat'' ''Staten Island'' ''New York City'',
               mkHit 6 ''Scarr'' ''New York'' ''Lower East Side'',
               mkHit 7 ''Una Pizza'' ''New York'' ''Lower East Side'',
               mkHit 8 ''Elena'' montreal ''Saint-Henri'']"

section \<open>The venue parser\<close>

lemma orElse_simps [simp]: "orElse None d = d" "orElse (Some v) d = v"
  by (simp_all add: orElse_def)

lemma includes_sublist: "str_includes s w \<longleftrightarrow> sublist w s"
  by (induction s) (auto simp: sublist_Cons_right)

lemma postFilter_local:
  "filter (isLocal l) vs \<noteq> [] \<Longrightarrow> postFilter l vs = take 5 (filter (isLocal l) vs)"
  by (simp add: postFilter_def)

lemma postFilter_fallback:
  "filter (isLocal l) vs = [] \<Longrightarrow> postFilter l vs = take 5 vs"
  by (simp add: postFilter_def)

lemma filter_take_all: "\<forall>x \<in> set xs. P x \<Longrightarrow> filter P (take n xs) = take n xs"
  by (metis filter_True in_set_takeD)

lemma filter_take_none: "filter P xs = [] \<Longrightarrow> filter P (take n xs) = []"
  by (metis filter_empty_conv in_set_takeD)

text \<open>
  C9. The location post-filter is idempotent: for every location string and every list
  of venues, filtering the output of the post-filter again (same location, fall-back to
  the unfiltered list, cap at 5) returns that output unchanged.
\<close>

theorem postFilter_idempotent:
  "postFilter l (postFilter l vs) = postFilter l vs"
proof (cases "filter (isLocal l) vs = []")
  case True
  then have out: "postFilter l vs = take 5 vs"
    by (rule postFilter_fallback)
  have "filter (isLocal l) (take 5 vs) = []"
    using True by (rule filter_take_none)
  then have "postFilter l (take 5 vs) = take 5 (take 5 vs)"
    by (rule postFilter_fallback)
  with out show ?thesis by simp
next
  case False
  then have out: "postFilter l vs = take 5 (filter (isLocal l) vs)"
    by (rule postFilter_local)
  have keep: "filter (isLocal l) (take 5 (filter (isLocal l) vs)) = take 5 (filter (isLocal l) vs)"
    by (rule filter_take_all) simp
  have "take 5 (filter (isLocal l) vs) \<noteq> []"
    using False by (cases "filter (isLocal l) vs") simp_all
  with keep have "postFilter l (take 5 (filter (isLocal l) vs))
      = take 5 (take 5 (filter (isLocal l) vs))"
    by (simp add: postFilter_def)
  with out show ?thesis by simp
qed

theorem postFilter_idempotent_witness:
  "map vid (postFilter ''New York, NY'' (postFilter ''New York, NY'' (map toVenue demoHits)))
     = [1, 3]"
proof -
  have ev: "map vid (postFilter ''New York, NY'' (map toVenue demoHits)) = [1, 3]"
    by code_simp
  from postFilter_idempotent [of "''New York, NY''" "map toVenue demoHits"] ev
  show ?thesis by simp
qed

lemma postFilter_subseq: "subseq (postFilter l vs) vs"
proof -
  have "subseq (take 5 (filter (isLocal l) vs)) vs"
    by (meson prefix_imp_subseq subseq_filter_left subseq_order.trans take_is_prefix)
  moreover have "subseq (take 5 vs) vs"
    by (simp add: prefix_imp_subseq take_is_prefix)
  ultimately show ?thesis
    by (simp add: postFilter_def Let_def)
qed

lemma postFilter_length: "length (postFilter l vs) \<le> 5"
  by (simp add: postFilter_def Let_def)

lemma postFilter_nonempty: "vs \<noteq> [] \<Longrightarrow> postFilter l vs \<noteq> []"
  by (cases vs; cases "filter (isLocal l) vs") (simp_all add: postFilter_def Let_def)

subsection \<open>Letters\<close>

lemma letters_facts:
  "length upper_letters = length lower_letters" "distinct upper_letters" "distinct lower_letters"
  "set upper_letters \<inter> set lower_letters = {}"
  by code_simp+

lemma lower_char_other: "c \<notin> set upper_letters \<Longrightarrow> lower_char c = c"
proof -
  assume "c \<notin> set upper_letters"
  then have "map_of (zip upper_letters lower_letters) c = None"
    by (simp add: map_of_zip_is_None letters_facts(1))
  then show ?thesis by (simp add: lower_char_def)
qed

lemma lower_char_pair:
  "(a, b) \<in> set (zip upper_letters lower_letters) \<Longrightarrow> lower_char a = b"
proof -
  assume "(a, b) \<in> set (zip upper_letters lower_letters)"
  moreover have "distinct (map fst (zip upper_letters lower_letters))"
    by (simp add: letters_facts)
  ultimately have "map_of (zip upper_letters lower_letters) a = Some b"
    by (rule map_of_is_SomeI [rotated])
  then show ?thesis by (simp add: lower_char_def)
qed

lemma lower_char_upper:
  "c \<in> set upper_letters \<Longrightarrow> (c, lower_char c) \<in> set (zip upper_letters lower_letters)"
proof -
  assume "c \<in> set upper_letters"
  then obtain i where i: "i < length upper_letters" "upper_letters ! i = c"
    by (auto simp: in_set_conv_nth)
  then have "(c, lower_letters ! i) \<in> set (zip upper_letters lower_letters)"
    using letters_facts(1) by (auto simp: set_zip)
  then show ?thesis
    using lower_char_pair by fastforce
qed

lemma lower_char_not_upper: "lower_char c \<notin> set upper_letters"
proof (cases "c \<in> set upper_letters")
  case True
  then have "lower_char c \<in> set lower_letters"
    by (auto dest: lower_char_upper set_zip_rightD)
  with letters_facts(4) show ?thesis by auto
next
  case False
  then show ?thesis by (simp add: lower_char_other)
qed

lemma lower_char_idem [simp]: "lower_char (lower_char c) = lower_char c"
  by (simp add: lower_char_other lower_char_not_upper)

lemma zip_lower_inj:
  "(a, x) \<in> set (zip upper_letters lower_letters) \<Longrightarrow>
   (b, x) \<in> set (zip upper_letters lower_letters) \<Longrightarrow> a = b"
  using letters_facts(1,3)
  by (metis distinct_conv_nth fst_conv in_set_zip snd_conv)

lemma same_letter_iff: "same_letter c d \<longleftrightarrow> lower_char c = lower_char d"
proof
  assume "same_letter c d"
  then consider "c = d" | "(c, d) \<in> set (zip upper_letters lower_letters)"
    | "(d, c) \<in> set (zip upper_letters lower_letters)"
    by (auto simp: same_letter_def)
  then show "lower_char c = lower_char d"
  proof cases
    case 1
    then show ?thesis by simp
  next
    case 2
    then have "lower_char c = d" by (rule lower_char_pair)
    then show ?thesis by (metis lower_char_idem)
  next
    case 3
    then have "lower_char d = c" by (rule lower_char_pair)
    then show ?thesis by (metis lower_char_idem)
  qed
next
  assume eq: "lower_char c = lower_char d"
  have c: "c = lower_char c \<or> (c, lower_char c) \<in> set (zip upper_letters lower_letters)"
    using lower_char_other lower_char_upper by (cases "c \<in> set upper_letters") auto
  have d: "d = lower_char d \<or> (d, lower_char d) \<in> set (zip upper_letters lower_letters)"
    using lower_char_other lower_char_upper by (cases "d \<in> set upper_letters") auto
  from c d eq zip_lower_inj show "same_letter c d"
    unfolding same_letter_def by metis
qed

lemma map_eq_all2: "map f xs = map f ys \<longleftrightarrow> list_all2 (\<lambda>x y. f x = f y) xs ys"
  by (induction xs arbitrary: ys) (auto simp: list_all2_Cons1 map_eq_Cons_conv)

lemma toLowerCase_eq: "toLowerCase w = toLowerCase u \<longleftrightarrow> list_all2 same_letter w u"
  by (simp add: toLowerCase_def map_eq_all2 same_letter_iff [abs_def])

lemma includes_caseless:
  "str_includes (toLowerCase s) (toLowerCase w) \<longleftrightarrow> caseless_includes s w"
proof -
  have "str_includes (toLowerCase s) (toLowerCase w)
      \<longleftrightarrow> (\<exists>ps ss. toLowerCase s = ps @ toLowerCase w @ ss)"
    by (simp add: includes_sublist sublist_def)
  also have "\<dots> \<longleftrightarrow> (\<exists>ps u ss. s = ps @ u @ ss \<and> toLowerCase w = toLowerCase u)"
    unfolding toLowerCase_def
    by (auto simp: map_eq_append_conv append_eq_map_conv) (metis map_append)+
  also have "\<dots> \<longleftrightarrow> caseless_includes s w"
    by (auto simp: caseless_includes_def toLowerCase_eq)
  finally show ?thesis .
qed

subsection \<open>Words\<close>

lemma after_sep_Nil [simp]: "after_sep P [] = {}"
  by (simp add: after_sep_def)

lemma after_sep_Cons: "after_sep P (c # s) = (if P c then {s} else {}) \<union> after_sep P s"
  by (auto simp: after_sep_def Cons_eq_append_conv)

lemma block_starts:
  "block P s w \<longleftrightarrow>
     w \<noteq> [] \<and> (w = takeWhile (\<lambda>c. \<not> P c) s \<or> (\<exists>r \<in> after_sep P s. w = takeWhile (\<lambda>c. \<not> P c) r))"
proof
  assume b: "block P s w"
  then obtain ps ss where s: "s = ps @ w @ ss" and ps: "ps = [] \<or> P (last ps)"
      and ss: "ss = [] \<or> P (hd ss)" and w: "w \<noteq> []" "\<forall>c \<in> set w. \<not> P c"
    by (auto simp: block_def)
  from ss have "takeWhile (\<lambda>c. \<not> P c) ss = []"
    by (cases ss) auto
  with w(2) have tw: "takeWhile (\<lambda>c. \<not> P c) (w @ ss) = w"
    by (simp add: takeWhile_append2)
  show "w \<noteq> [] \<and> (w = takeWhile (\<lambda>c. \<not> P c) s
      \<or> (\<exists>r \<in> after_sep P s. w = takeWhile (\<lambda>c. \<not> P c) r))"
  proof (cases "ps = []")
    case True
    with s tw w(1) show ?thesis by simp
  next
    case False
    with ps obtain ps' c where "ps = ps' @ [c]" "P c"
      by (metis append_butlast_last_id)
    with s have "w @ ss \<in> after_sep P s"
      by (auto simp: after_sep_def)
    with tw w(1) show ?thesis by metis
  qed
next
  assume a: "w \<noteq> [] \<and> (w = takeWhile (\<lambda>c. \<not> P c) s
      \<or> (\<exists>r \<in> after_sep P s. w = takeWhile (\<lambda>c. \<not> P c) r))"
  have run: "(\<forall>c \<in> set (takeWhile (\<lambda>c. \<not> P c) r). \<not> P c)
      \<and> (dropWhile (\<lambda>c. \<not> P c) r = [] \<or> P (hd (dropWhile (\<lambda>c. \<not> P c) r)))" for r
    using hd_dropWhile [of "\<lambda>c. \<not> P c" r] by (auto dest: set_takeWhileD)
  from a consider "w = takeWhile (\<lambda>c. \<not> P c) s"
    | r where "r \<in> after_sep P s" "w = takeWhile (\<lambda>c. \<not> P c) r"
    by blast
  then show "block P s w"
  proof cases
    case 1
    have "\<exists>ps ss. s = ps @ w @ ss \<and> (ps = [] \<or> P (last ps)) \<and> (ss = [] \<or> P (hd ss))"
      using 1 run [of s]
      by (intro exI [of _ "[]"] exI [of _ "dropWhile (\<lambda>c. \<not> P c) s"]) simp
    moreover have "\<forall>c \<in> set w. \<not> P c"
      using 1 run [of s] by simp
    ultimately show ?thesis
      using a by (simp add: block_def)
  next
    case (2 r)
    then obtain ps c where sc: "s = ps @ c # r" "P c"
      by (auto simp: after_sep_def)
    have "\<exists>ps ss. s = ps @ w @ ss \<and> (ps = [] \<or> P (last ps)) \<and> (ss = [] \<or> P (hd ss))"
      using 2 sc run [of r]
      by (intro exI [of _ "ps @ [c]"] exI [of _ "dropWhile (\<lambda>c. \<not> P c) r"]) simp
    moreover have "\<forall>c \<in> set w. \<not> P c"
      using 2 run [of r] by simp
    ultimately show ?thesis
      using a by (simp add: block_def)
  qed
qed

lemma block_Cons_sep: "P c \<Longrightarrow> block P (c # s) w \<longleftrightarrow> block P s w"
  by (auto simp: block_starts after_sep_Cons)

lemma block_dropWhile: "block P (dropWhile P s) w \<longleftrightarrow> block P s w"
  by (induction s) (simp_all add: block_Cons_sep)

lemma block_rev: "block P (rev s) (rev w) \<longleftrightarrow> block P s w"
proof -
  have "block P (rev s) (rev w)" if "block P s w" for s w
  proof -
    from that obtain ps ss where "s = ps @ w @ ss" "ps = [] \<or> P (last ps)"
        "ss = [] \<or> P (hd ss)" "w \<noteq> []" "\<forall>c \<in> set w. \<not> P c"
      by (auto simp: block_def)
    then have "rev s = rev ss @ rev w @ rev ps" "rev ss = [] \<or> P (last (rev ss))"
        "rev ps = [] \<or> P (hd (rev ps))" "rev w \<noteq> []" "\<forall>c \<in> set (rev w). \<not> P c"
      by (auto simp: last_rev hd_rev)
    then show ?thesis
      unfolding block_def by blast
  qed
  from this [of s w] this [of "rev s" "rev w"] show ?thesis by auto
qed

lemma block_trim: "block is_space (trim s) w \<longleftrightarrow> block is_space s w"
proof -
  have "block is_space (trim s) w
      \<longleftrightarrow> block is_space (dropWhile is_space (rev (dropWhile is_space s))) (rev w)"
    using block_rev [of is_space "dropWhile is_space (rev (dropWhile is_space s))" "rev w"]
    by (simp add: trim_def)
  also have "\<dots> \<longleftrightarrow> block is_space (rev (dropWhile is_space s)) (rev w)"
    by (rule block_dropWhile)
  also have "\<dots> \<longleftrightarrow> block is_space (dropWhile is_space s) w"
    by (rule block_rev)
  also have "\<dots> \<longleftrightarrow> block is_space s w"
    by (rule block_dropWhile)
  finally show ?thesis .
qed

lemma split_ws_parts:
  "split_ws s \<noteq> [] \<and> hd (split_ws s) = takeWhile (\<lambda>c. \<not> is_space c) s
   \<and> set (tl (split_ws s)) - {[]} = (takeWhile (\<lambda>c. \<not> is_space c) ` after_sep is_space s) - {[]}"
proof (induction s rule: split_ws.induct)
  case 1
  then show ?case by simp
next
  case (2 c cs)
  show ?case
  proof (cases "is_space c")
    case True
    let ?d = "dropWhile is_space cs"
    from True 2(1) have ih: "split_ws ?d \<noteq> []"
        "hd (split_ws ?d) = takeWhile (\<lambda>c. \<not> is_space c) ?d"
        "set (tl (split_ws ?d)) - {[]} = (takeWhile (\<lambda>c. \<not> is_space c) ` after_sep is_space ?d) - {[]}"
      by simp_all
    have "set (split_ws ?d) - {[]} = {w. block is_space ?d w}"
    proof -
      have "set (split_ws ?d) = insert (hd (split_ws ?d)) (set (tl (split_ws ?d)))"
        using ih(1) by (cases "split_ws ?d") auto
      with ih(2,3) show ?thesis
        by (auto simp: block_starts)
    qed
    also have "\<dots> = {w. block is_space (c # cs) w}"
      using True by (simp add: block_dropWhile block_Cons_sep)
    also have "\<dots> = (takeWhile (\<lambda>c. \<not> is_space c) ` after_sep is_space (c # cs)) - {[]}"
      using True by (auto simp: block_starts)
    finally show ?thesis
      using True by simp
  next
    case False
    with 2(2) have ih: "split_ws cs \<noteq> []"
        "hd (split_ws cs) = takeWhile (\<lambda>c. \<not> is_space c) cs"
        "set (tl (split_ws cs)) - {[]} = (takeWhile (\<lambda>c. \<not> is_space c) ` after_sep is_space cs) - {[]}"
      by simp_all
    from ih(1) obtain w1 ws where sp: "split_ws cs = w1 # ws"
      by (cases "split_ws cs") auto
    with False ih show ?thesis
      by (simp add: after_sep_Cons)
  qed
qed

lemma split_ws_words: "w \<in> set (split_ws s) \<and> w \<noteq> [] \<longleftrightarrow> block is_space s w"
proof -
  have "set (split_ws s) = insert (hd (split_ws s)) (set (tl (split_ws s)))"
    using split_ws_parts [of s] by (cases "split_ws s") auto
  with split_ws_parts [of s] show ?thesis
    by (auto simp: block_starts)
qed

subsection \<open>The words of a location\<close>

lemma block_map:
  assumes sep: "\<And>c. P (f c) \<longleftrightarrow> Q c"
  shows "block P (map f s) w \<longleftrightarrow> (\<exists>w0. block Q s w0 \<and> w = map f w0)"
proof
  assume "block P (map f s) w"
  then obtain ps ss where m: "map f s = ps @ w @ ss" and e: "ps = [] \<or> P (last ps)"
      "ss = [] \<or> P (hd ss)" and w: "w \<noteq> []" "\<forall>c \<in> set w. \<not> P c"
    by (auto simp: block_def)
  from m obtain ps0 r where r: "s = ps0 @ r" "ps = map f ps0" "w @ ss = map f r"
    by (auto simp: map_eq_append_conv)
  from r(3) obtain w0 ss0 where "r = w0 @ ss0" "w = map f w0" "ss = map f ss0"
    by (auto simp: append_eq_map_conv)
  with r have s: "s = ps0 @ w0 @ ss0" "ps = map f ps0" "w = map f w0" "ss = map f ss0"
    by simp_all
  have "ps0 = [] \<or> Q (last ps0)"
    using e(1) s(2) by (cases "ps0 = []") (simp_all add: last_map sep)
  moreover have "ss0 = [] \<or> Q (hd ss0)"
    using e(2) s(4) by (cases "ss0 = []") (simp_all add: hd_map sep)
  moreover from w s have "w0 \<noteq> []" "\<forall>c \<in> set w0. \<not> Q c"
    by (auto simp: sep)
  ultimately have "block Q s w0"
    using s(1) unfolding block_def by blast
  with s(3) show "\<exists>w0. block Q s w0 \<and> w = map f w0" by blast
next
  assume "\<exists>w0. block Q s w0 \<and> w = map f w0"
  then obtain w0 ps0 ss0 where s: "s = ps0 @ w0 @ ss0" "w = map f w0"
      and e: "ps0 = [] \<or> Q (last ps0)" "ss0 = [] \<or> Q (hd ss0)"
      and w: "w0 \<noteq> []" "\<forall>c \<in> set w0. \<not> Q c"
    by (auto simp: block_def)
  have "map f s = map f ps0 @ w @ map f ss0"
    using s by simp
  moreover have "map f ps0 = [] \<or> P (last (map f ps0))"
    using e(1) by (cases "ps0 = []") (simp_all add: last_map sep)
  moreover have "map f ss0 = [] \<or> P (hd (map f ss0))"
    using e(2) by (cases "ss0 = []") (simp_all add: hd_map sep)
  moreover have "w \<noteq> []" "\<forall>c \<in> set w. \<not> P c"
    using w s(2) by (auto simp: sep)
  ultimately show "block P (map f s) w"
    unfolding block_def by blast
qed

lemma separators_not_letters:
  "is_separator c \<Longrightarrow> c \<notin> set upper_letters \<and> c \<notin> set lower_letters"
proof -
  have "list_all (\<lambda>c. c \<notin> set upper_letters \<and> c \<notin> set lower_letters)
          ([CHR 0x09, CHR 0x0A, CHR 0x0B, CHR 0x0C, CHR 0x0D, CHR '' '', CHR 0xA0] @ '',.-'')"
    by code_simp
  then show "is_separator c \<Longrightarrow> c \<notin> set upper_letters \<and> c \<notin> set lower_letters"
    unfolding is_separator_def is_space_def list_all_iff by auto
qed

lemma is_separator_lower: "is_separator (lower_char c) \<longleftrightarrow> is_separator c"
proof (cases "c \<in> set upper_letters")
  case True
  then have "lower_char c \<in> set lower_letters"
    by (auto dest: lower_char_upper set_zip_rightD)
  with True show ?thesis
    using separators_not_letters by blast
next
  case False
  then show ?thesis by (simp add: lower_char_other)
qed

lemma is_space_punct:
  "is_space (if c \<in> set '',.-'' then CHR '' '' else c) \<longleftrightarrow> is_separator c"
  by (auto simp: is_separator_def is_space_def)

lemma punct_word:
  "\<forall>c \<in> set w0. \<not> is_separator c \<Longrightarrow>
   map (\<lambda>c. if c \<in> set '',.-'' then CHR '' '' else c) w0 = w0"
  by (induction w0) (auto simp: is_separator_def)

lemma locWords_words:
  "w \<in> set (locWords l) \<and> w \<noteq> [] \<longleftrightarrow> (\<exists>w0. location_word l w0 \<and> w = toLowerCase w0)"
proof -
  let ?p = "\<lambda>c. if c \<in> set '',.-'' then CHR '' '' else c"
  have "w \<in> set (locWords l) \<and> w \<noteq> [] \<longleftrightarrow> block is_space (trim (map ?p (toLowerCase l))) w"
    unfolding locWords_def by (rule split_ws_words)
  also have "\<dots> \<longleftrightarrow> block is_space (map ?p (toLowerCase l)) w"
    by (rule block_trim)
  also have "\<dots> \<longleftrightarrow> (\<exists>w1. block is_separator (toLowerCase l) w1 \<and> w = map ?p w1)"
    by (rule block_map) (rule is_space_punct)
  also have "\<dots> \<longleftrightarrow> block is_separator (toLowerCase l) w"
  proof
    assume "\<exists>w1. block is_separator (toLowerCase l) w1 \<and> w = map ?p w1"
    then obtain w1 where w1: "block is_separator (toLowerCase l) w1" "w = map ?p w1"
      by blast
    from w1(1) have "\<forall>c \<in> set w1. \<not> is_separator c"
      by (simp add: block_def)
    then have "map ?p w1 = w1"
      by (rule punct_word)
    with w1 show "block is_separator (toLowerCase l) w"
      by simp
  next
    assume b: "block is_separator (toLowerCase l) w"
    then have "\<forall>c \<in> set w. \<not> is_separator c"
      by (simp add: block_def)
    then have "map ?p w = w"
      by (rule punct_word)
    with b show "\<exists>w1. block is_separator (toLowerCase l) w1 \<and> w = map ?p w1"
      by (intro exI [of _ w]) simp
  qed
  also have "\<dots> \<longleftrightarrow> (\<exists>w0. block is_separator l w0 \<and> w = map lower_char w0)"
    unfolding toLowerCase_def by (rule block_map) (rule is_separator_lower)
  finally show ?thesis
    unfolding location_word_def toLowerCase_def .
qed

lemma isLocal_spec:
  "isLocal l v \<longleftrightarrow>
     (\<exists>w. location_word l w \<and> length w > 2
        \<and> caseless_includes (city v @ '' '' @ neighborhood v) w)"
proof -
  let ?vc = "city v @ '' '' @ neighborhood v"
  have "isLocal l v \<longleftrightarrow>
      (\<exists>w. (w \<in> set (locWords l) \<and> w \<noteq> []) \<and> length w > 2 \<and> str_includes (toLowerCase ?vc) w)"
    by (auto simp: isLocal_def list_ex_iff)
  also have "\<dots> \<longleftrightarrow> (\<exists>w0. location_word l w0 \<and> length (toLowerCase w0) > 2
        \<and> str_includes (toLowerCase ?vc) (toLowerCase w0))"
    unfolding locWords_words by blast
  also have "\<dots> \<longleftrightarrow> (\<exists>w0. location_word l w0 \<and> length w0 > 2 \<and> caseless_includes ?vc w0)"
    by (simp add: includes_caseless) (simp add: toLowerCase_def)
  finally show ?thesis .
qed

text \<open>
  C5. For every raw search response and location string: a venue is local when some
  word of the location longer than two characters is included, case-insensitively, in
  the text made of the venue's city, a space and its neighbourhood. \<open>parseVenues\<close>
  returns the first five of the local venues, or the first five of all venues when none
  is local. So its result holds local venues only whenever there is one, has at most
  five venues, keeps the order of the response, and is not empty when the response had
  a hit.
\<close>

theorem parseVenues_spec:
  fixes data :: "Hit list option" and l :: string
  defines "all_v \<equiv> map toVenue (orElse data [])"
  defines "local_v \<equiv>
    filter (\<lambda>v. \<exists>w. location_word l w \<and> length w > 2
                  \<and> caseless_includes (city v @ '' '' @ neighborhood v) w) all_v"
  shows "parseVenues data l = take 5 (if local_v = [] then all_v else local_v)
   \<and> (local_v \<noteq> [] \<longrightarrow> set (parseVenues data l) \<subseteq> set local_v)
   \<and> length (parseVenues data l) \<le> 5
   \<and> subseq (parseVenues data l) all_v
   \<and> (all_v \<noteq> [] \<longrightarrow> parseVenues data l \<noteq> [])"
proof -
  have pv: "parseVenues data l = postFilter l all_v"
    by (simp add: parseVenues_def all_v_def)
  have lv: "filter (isLocal l) all_v = local_v"
    unfolding local_v_def by (rule filter_cong) (simp_all add: isLocal_spec)
  have a: "parseVenues data l = take 5 (if local_v = [] then all_v else local_v)"
    by (simp add: pv postFilter_def lv Let_def)
  have c: "local_v \<noteq> [] \<longrightarrow> set (parseVenues data l) \<subseteq> set local_v"
    by (simp add: a set_take_subset)
  have d: "length (parseVenues data l) \<le> 5"
    by (simp add: pv postFilter_length)
  have e: "subseq (parseVenues data l) all_v"
    by (simp add: pv postFilter_subseq)
  have f: "all_v \<noteq> [] \<longrightarrow> parseVenues data l \<noteq> []"
    by (simp add: pv postFilter_nonempty)
  from a c d e f show ?thesis by blast
qed

theorem parseVenues_spec_witness:
  "map vid (parseVenues (Some manyHits) ''NEW YORK, ny'') = [1, 3, 4, 5, 6]
   \<and> map vid (parseVenues (Some manyHits) ''Boston'') = [1, 2, 3, 4, 5]
   \<and> map vid (parseVenues (Some manyHits) (''MONTR'' @ [CHR 0xC9] @ ''AL'')) = [8]
   \<and> location_word ''NEW YORK, ny'' ''YORK''
   \<and> caseless_includes ''new york West Village'' ''YORK''
   \<and> length (parseVenues (Some manyHits) ''NEW YORK, ny'') \<le> 5
   \<and> subseq (parseVenues (Some manyHits) ''NEW YORK, ny'') (map toVenue manyHits)"
proof -
  have ev: "map vid (parseVenues (Some manyHits) ''NEW YORK, ny'') = [1, 3, 4, 5, 6]"
    "map vid (parseVenues (Some manyHits) ''Boston'') = [1, 2, 3, 4, 5]"
    "map vid (parseVenues (Some manyHits) (''MONTR'' @ [CHR 0xC9] @ ''AL'')) = [8]"
    by code_simp+
  have lw: "location_word ''NEW YORK, ny'' ''YORK''"
  proof -
    have "''NEW YORK, ny'' = ''NEW '' @ ''YORK'' @ '', ny''"
      by simp
    moreover have "is_separator (last ''NEW '')" "is_separator (hd '', ny'')"
        "\<forall>c \<in> set ''YORK''. \<not> is_separator c"
      by (simp_all add: is_separator_def is_space_def)
    ultimately show ?thesis
      unfolding location_word_def block_def by blast
  qed
  have ci: "caseless_includes ''new york West Village'' ''YORK''"
  proof -
    have "''new york West Village'' = ''new '' @ ''york'' @ '' West Village''"
      by simp
    moreover have "list_all2 same_letter ''YORK'' ''york''"
      by code_simp
    ultimately show ?thesis
      unfolding caseless_includes_def by blast
  qed
  from parseVenues_spec [of "Some manyHits" "''NEW YORK, ny''"]
  have "length (parseVenues (Some manyHits) ''NEW YORK, ny'') \<le> 5"
    and "subseq (parseVenues (Some manyHits) ''NEW YORK, ny'')
           (map toVenue (orElse (Some manyHits) []))"
    by blast+
  with ev lw ci show ?thesis by simp
qed

section \<open>The message handler, step by step\<close>

lemma handleMessage_reset_cmd:
  "trim (toLowerCase txt) = ''reset'' \<or> trim (toLowerCase txt) = ''start over'' \<Longrightarrow>
   handleMessage e st txt = (reset, [], Inr StartingFresh)"
  by (subst handleMessage.simps) (simp add: Let_def)

lemma handleMessage_idle:
  "trim (toLowerCase txt) \<noteq> ''reset'' \<Longrightarrow> trim (toLowerCase txt) \<noteq> ''start over'' \<Longrightarrow>
   step st = idle \<Longrightarrow> handleMessage e st txt = stepIdle e st txt"
  by (subst handleMessage.simps) (simp add: Let_def)

lemma step_reset [simp]: "step reset = idle"
  by (simp add: reset_def)

lemma handleMessage_venue_list:
  "trim (toLowerCase txt) \<noteq> ''reset'' \<Longrightarrow> trim (toLowerCase txt) \<noteq> ''start over'' \<Longrightarrow>
   step st = venue_list \<Longrightarrow>
   handleMessage e st txt =
     (if trim (toLowerCase txt) = ''back'' then (reset, [], Inr WhatSearch)
      else if invalid_choice (parseInt (trim (toLowerCase txt))) (length (orElse (venues st) []))
        then stepIdle e reset txt
      else stepVenuePicked e st (the (parseInt (trim (toLowerCase txt)))))"
  by (subst handleMessage.simps) (simp add: Let_def handleMessage_idle)

lemma handleMessage_slot_list:
  "trim (toLowerCase txt) \<noteq> ''reset'' \<Longrightarrow> trim (toLowerCase txt) \<noteq> ''start over'' \<Longrightarrow>
   step st = slot_list \<Longrightarrow>
   handleMessage e st txt = stepSlotList e st (trim (toLowerCase txt))"
  by (subst handleMessage.simps) (simp add: Let_def)

lemma handleMessage_confirm:
  "trim (toLowerCase txt) \<noteq> ''reset'' \<Longrightarrow> trim (toLowerCase txt) \<noteq> ''start over'' \<Longrightarrow>
   step st = confirm \<Longrightarrow>
   handleMessage e st txt = stepConfirm e st (trim (toLowerCase txt))"
  by (subst handleMessage.simps) (simp add: Let_def)

lemma expired_iff: "expired e st \<longleftrightarrow> (\<exists>t. bookExpires st = Some (Date t) \<and> t < now e)"
  by (auto simp: expired_def split: option.splits date.splits)

lemma stepConfirm_expired:
  "lower = ''yes'' \<or> lower = ''confirm'' \<or> lower = ''book'' \<Longrightarrow> expired e st \<Longrightarrow>
   stepConfirm e st lower =
     (st\<lparr>step := slot_list, pickedSlot := None, bookToken := None\<rparr>, [],
      slotListOf (st\<lparr>step := slot_list, pickedSlot := None, bookToken := None\<rparr>) HoldExpired)"
  by (auto simp: stepConfirm_def Let_def)

lemma listState_run: "state_of (handleMessage demoEnv reset ''pizza'') = listState"
proof -
  have l: "trim (toLowerCase ''pizza'') = ''pizza''"
    by code_simp
  have pv: "parseVenues (Some demoHits) ''New York, NY'' = [venueA, venueB]"
    by code_simp
  have "handleMessage demoEnv reset ''pizza'' = stepIdle demoEnv reset ''pizza''"
    using handleMessage_idle [of "''pizza''" reset demoEnv] l by simp
  then show ?thesis
    by (simp add: stepIdle_def apiSearch_def ok_def demoEnv_def demoSearch_def pv listState_def
          state_of_def Let_def)
qed

lemma lower_one: "trim (toLowerCase ''1'') = ''1''" "parseInt ''1'' = Some 1"
  by code_simp+

lemma elevenSlotsState_eq:
  "elevenSlotsState = listState\<lparr>step := slot_list, pickedVenue := Some venueA,
                                 slots := Some (replicate 11 demoSlot)\<rparr>"
proof -
  have s: "step listState = venue_list" "venues listState = Some [venueA, venueB]"
    by (simp_all add: listState_def)
  have c: "handleMessage demoEnv listState ''1'' = stepVenuePicked demoEnv listState 1"
    using handleMessage_venue_list [of "''1''" listState demoEnv] s lower_one
    by (simp add: invalid_choice_def)
  have ts: "toSlot demoRawSlot = demoSlot"
    by code_simp
  have ps: "parseSlots (Some [\<lparr> av_venue_id_resy = Some 1,
                 av_slots = Some (replicate 11 demoRawSlot) \<rparr>]) 1 = replicate 11 demoSlot"
    by (simp add: parseSlots_def ts Let_def)
  have "state_of (stepVenuePicked demoEnv listState 1)
      = listState\<lparr>step := slot_list, pickedVenue := Some venueA,
                   slots := Some (replicate 11 demoSlot)\<rparr>"
    by (simp add: stepVenuePicked_def apiAvailability_def ok_def demoEnv_def ps
          listState_def venueA_def state_of_def Let_def)
  then show ?thesis
    by (simp add: elevenSlotsState_def listState_run c)
qed

lemma confirmState_run: "state_of (handleMessage demoEnv elevenSlotsState ''1'') = confirmState"
proof -
  have s: "step elevenSlotsState = slot_list"
    by (simp add: elevenSlotsState_eq)
  have "handleMessage demoEnv elevenSlotsState ''1'' = stepSlotList demoEnv elevenSlotsState ''1''"
    using handleMessage_slot_list [of "''1''" elevenSlotsState demoEnv] s lower_one by simp
  then show ?thesis
    by (simp add: stepSlotList_def apiDetails_def ok_def demoEnv_def demoDetails_def lower_one
          invalid_choice_def elevenSlotsState_eq listState_def confirmState_def demoSlot_def
          demoSearch_def state_of_def Let_def)
qed

text \<open>The example sessions arise from the start: \<open>listState\<close> after the turn \<open>pizza\<close>,
  \<open>elevenSlotsState\<close> after the turn \<open>1\<close>, \<open>confirmState\<close> after another turn \<open>1\<close>.\<close>

lemma demo_reachable:
  "reachable listState" "reachable elevenSlotsState" "reachable confirmState"
proof -
  show a: "reachable listState"
    using reachable.turn [OF reachable.start, of demoEnv "''pizza''"] by (simp add: listState_run)
  show b: "reachable elevenSlotsState"
    using reachable.turn [OF a, of demoEnv "''1''"]
    by (simp add: elevenSlotsState_def listState_run)
  show "reachable confirmState"
    using reachable.turn [OF b, of demoEnv "''1''"] by (simp add: confirmState_run)
qed

text \<open>
  C1. For every session in step \<open>confirm\<close>: when the trimmed, lower-cased input is
  \<open>yes\<close>, \<open>confirm\<close> or \<open>book\<close> and \<open>bookExpires\<close> is a date earlier than the clock
  at the moment the input is handled, the turn makes no call on the outside, so
  \<open>apiBook\<close> is not invoked; the session goes to \<open>slot_list\<close> and \<open>bookToken\<close> is
  cleared.
\<close>

theorem expired_hold_never_booked:
  assumes "step st = confirm"
    and "trim (toLowerCase txt) = ''yes'' \<or> trim (toLowerCase txt) = ''confirm''
         \<or> trim (toLowerCase txt) = ''book''"
    and "bookExpires st = Some (Date t)" and "t < now e"
  shows "(\<forall>tok. ApiBook tok \<notin> set (calls_of (handleMessage e st txt)))
       \<and> calls_of (handleMessage e st txt) = []
       \<and> step (state_of (handleMessage e st txt)) = slot_list
       \<and> bookToken (state_of (handleMessage e st txt)) = None"
proof -
  have ex: "expired e st"
    using assms(3,4) by (auto simp: expired_iff)
  have nr: "trim (toLowerCase txt) \<noteq> ''reset''" "trim (toLowerCase txt) \<noteq> ''start over''"
    using assms(2) by auto
  have "handleMessage e st txt = stepConfirm e st (trim (toLowerCase txt))"
    using nr assms(1) by (rule handleMessage_confirm)
  also have "\<dots> = (st\<lparr>step := slot_list, pickedSlot := None, bookToken := None\<rparr>, [],
      slotListOf (st\<lparr>step := slot_list, pickedSlot := None, bookToken := None\<rparr>) HoldExpired)"
    using assms(2) ex by (rule stepConfirm_expired)
  finally show ?thesis
    by (simp add: calls_of_def state_of_def)
qed


theorem expired_hold_never_booked_witness:
  "reachable confirmState \<and> step confirmState = confirm
   \<and> trim (toLowerCase ''Yes '') = ''yes''
   \<and> bookExpires confirmState = Some (Date 1000) \<and> 1000 < now demoEnv
   \<and> (\<forall>tok. ApiBook tok \<notin> set (calls_of (handleMessage demoEnv confirmState ''Yes '')))
   \<and> step (state_of (handleMessage demoEnv confirmState ''Yes '')) = slot_list
   \<and> bookToken (state_of (handleMessage demoEnv confirmState ''Yes '')) = None"
proof -
  have h1: "step confirmState = confirm"
    by (simp add: confirmState_def)
  have h2: "trim (toLowerCase ''Yes '') = ''yes''"
    by code_simp
  have h3: "bookExpires confirmState = Some (Date 1000)"
    by (simp add: confirmState_def)
  have h4: "1000 < now demoEnv"
    by (simp add: demoEnv_def)
  from expired_hold_never_booked [OF h1 _ h3 h4, of "''Yes ''"] h1 h2 h3 h4 demo_reachable(3)
  show ?thesis by simp
qed

lemma populated_reset [simp]: "populated reset"
  by (simp add: populated_def reset_def)

lemma stepIdle_populated:
  "populated st \<Longrightarrow> populated (state_of (stepIdle e st txt))"
  by (auto simp: stepIdle_def state_of_def populated_def Let_def split: sum.splits Step.splits)

lemma stepVenuePicked_populated:
  "populated st \<Longrightarrow> step st = venue_list \<Longrightarrow> populated (state_of (stepVenuePicked e st n))"
  by (auto simp: stepVenuePicked_def state_of_def populated_def Let_def
           split: sum.splits option.splits Step.splits)

lemma stepSlotList_populated:
  "populated st \<Longrightarrow> step st = slot_list \<Longrightarrow> populated (state_of (stepSlotList e st lower))"
  by (auto simp: stepSlotList_def state_of_def populated_def Let_def
           split: sum.splits option.splits Step.splits)

lemma stepConfirm_populated:
  "populated st \<Longrightarrow> step st = confirm \<Longrightarrow> populated (state_of (stepConfirm e st lower))"
  by (auto simp: stepConfirm_def state_of_def populated_def Let_def
           split: sum.splits option.splits Step.splits)

lemma handleMessage_populated:
  assumes "populated st"
  shows "populated (state_of (handleMessage e st txt))"
proof (cases "trim (toLowerCase txt) = ''reset'' \<or> trim (toLowerCase txt) = ''start over''")
  case True
  then show ?thesis
    by (simp add: handleMessage_reset_cmd state_of_def)
next
  case False
  then have nr: "trim (toLowerCase txt) \<noteq> ''reset''" "trim (toLowerCase txt) \<noteq> ''start over''"
    by auto
  show ?thesis
  proof (cases "step st")
    case idle
    with nr assms show ?thesis
      by (simp add: handleMessage_idle stepIdle_populated)
  next
    case venue_list
    with nr assms show ?thesis
      by (simp add: handleMessage_venue_list stepIdle_populated stepVenuePicked_populated)
         (simp add: state_of_def)
  next
    case slot_list
    with nr assms show ?thesis
      by (simp add: handleMessage_slot_list stepSlotList_populated)
  next
    case confirm
    with nr assms show ?thesis
      by (simp add: handleMessage_confirm stepConfirm_populated)
  qed
qed

lemma reachable_populated: "reachable st \<Longrightarrow> populated st"
  by (induction rule: reachable.induct) (simp_all add: handleMessage_populated)

lemma stepConfirm_payment:
  assumes "lower = ''yes'' \<or> lower = ''confirm'' \<or> lower = ''book''"
    and "\<not> expired e st"
    and "pickedVenue st = Some v" and "pickedSlot st = Some sl" and "bookToken st = Some tok"
    and "fetchBook e tok = Inr res" and "status res = 402"
  shows "stepConfirm e st lower =
     (st\<lparr>step := slot_list, pickedSlot := None, bookToken := None\<rparr>, [ApiBook tok],
      Inr (PaymentRequired (name v)))"
  using assms by (auto simp: stepConfirm_def apiBook_def Let_def)

text \<open>
  C3. For every session in step \<open>confirm\<close> that the program can be in (its fields are
  populated, see \<open>reachable_populated\<close>): when the input is \<open>yes\<close> (or \<open>confirm\<close>, or
  \<open>book\<close>), the hold has not expired, so that the commit call is made, and the commit
  endpoint answers with status 402, the turn returns a reply and throws nothing; the
  one call made is that commit call; the step becomes \<open>slot_list\<close>, \<open>pickedSlot\<close> and
  \<open>bookToken\<close> are cleared, and \<open>pickedVenue\<close>, \<open>venues\<close>, \<open>slots\<close> and \<open>search\<close> are
  unchanged.
\<close>

theorem payment_required_degrades:
  assumes "populated st" and "step st = confirm"
    and "trim (toLowerCase txt) = ''yes'' \<or> trim (toLowerCase txt) = ''confirm''
         \<or> trim (toLowerCase txt) = ''book''"
    and "\<not> expired e st"
    and "bookToken st = Some tok" and "fetchBook e tok = Inr res" and "status res = 402"
  shows "(\<exists>rep. result_of (handleMessage e st txt) = Inr rep)
       \<and> calls_of (handleMessage e st txt) = [ApiBook tok]
       \<and> step (state_of (handleMessage e st txt)) = slot_list
       \<and> pickedSlot (state_of (handleMessage e st txt)) = None
       \<and> bookToken (state_of (handleMessage e st txt)) = None
       \<and> pickedVenue (state_of (handleMessage e st txt)) = pickedVenue st
       \<and> venues (state_of (handleMessage e st txt)) = venues st
       \<and> slots (state_of (handleMessage e st txt)) = slots st
       \<and> search (state_of (handleMessage e st txt)) = search st"
proof -
  from assms(1,2) obtain v sl where v: "pickedVenue st = Some v" and sl: "pickedSlot st = Some sl"
    by (auto simp: populated_def split: Step.splits)
  have nr: "trim (toLowerCase txt) \<noteq> ''reset''" "trim (toLowerCase txt) \<noteq> ''start over''"
    using assms(3) by auto
  have "handleMessage e st txt = stepConfirm e st (trim (toLowerCase txt))"
    using nr assms(2) by (rule handleMessage_confirm)
  also have "\<dots> = (st\<lparr>step := slot_list, pickedSlot := None, bookToken := None\<rparr>, [ApiBook tok],
      Inr (PaymentRequired (name v)))"
    using assms(3,4) v sl assms(5,6,7) by (rule stepConfirm_payment)
  finally show ?thesis
    by (simp add: calls_of_def state_of_def result_of_def)
qed

theorem payment_required_degrades_witness:
  "reachable confirmState \<and> populated confirmState \<and> step confirmState = confirm
   \<and> trim (toLowerCase ''yes'') = ''yes''
   \<and> \<not> expired (demoEnv\<lparr>now := 500\<rparr>) confirmState
   \<and> bookToken confirmState = Some ''tok''
   \<and> result_of (handleMessage (demoEnv\<lparr>now := 500\<rparr>) confirmState ''yes'')
        = Inr (PaymentRequired ''Lucali'')
   \<and> calls_of (handleMessage (demoEnv\<lparr>now := 500\<rparr>) confirmState ''yes'') = [ApiBook ''tok'']
   \<and> step (state_of (handleMessage (demoEnv\<lparr>now := 500\<rparr>) confirmState ''yes'')) = slot_list
   \<and> bookToken (state_of (handleMessage (demoEnv\<lparr>now := 500\<rparr>) confirmState ''yes'')) = None
   \<and> pickedVenue (state_of (handleMessage (demoEnv\<lparr>now := 500\<rparr>) confirmState ''yes''))
        = Some venueA"
proof -
  let ?e = "demoEnv\<lparr>now := 500\<rparr>"
  let ?res = "\<lparr> status = 402, body_text = [], body_json = Inr None \<rparr> :: string option response"
  have h1: "populated confirmState"
    by (simp add: populated_def confirmState_def)
  have h2: "step confirmState = confirm"
    by (simp add: confirmState_def)
  have h3: "trim (toLowerCase ''yes'') = ''yes''"
    by code_simp
  have h4: "\<not> expired ?e confirmState"
    by (simp add: expired_def confirmState_def)
  have h5: "bookToken confirmState = Some ''tok''"
    by (simp add: confirmState_def)
  have h6: "fetchBook ?e ''tok'' = Inr ?res"
    by (simp add: demoEnv_def)
  have h7: "status ?res = 402"
    by simp
  have v: "pickedVenue confirmState = Some venueA" "pickedSlot confirmState = Some demoSlot"
    by (simp_all add: confirmState_def)
  have r: "result_of (handleMessage ?e confirmState ''yes'') = Inr (PaymentRequired ''Lucali'')"
    using handleMessage_confirm [of "''yes''" confirmState ?e]
      stepConfirm_payment [OF _ h4 v h5 h6 h7, of "''yes''"] h2 h3
    by (simp add: result_of_def venueA_def)
  from payment_required_degrades [OF h1 h2 _ h4 h5 h6 h7, of "''yes''"] h1 h2 h3 h4 h5 r v
    demo_reachable(3)
  show ?thesis by simp
qed

lemma lower_yes: "trim (toLowerCase ''yes'') = ''yes''"
  by code_simp

lemma lower_no: "trim (toLowerCase ''no'') = ''no''"
  by code_simp

text \<open>
  C2. The code at a session in step \<open>confirm\<close> that arises from the start and
  whose hold ended at time 1000. Input
  \<open>yes\<close> with the clock at 2000 (hold expired), and input \<open>yes\<close> with the clock at 500
  and a commit answered with status 402 (payment required), both lead to \<open>slot_list\<close>
  with \<open>bookExpires\<close> still set; input \<open>no\<close> leads to \<open>slot_list\<close> with \<open>bookExpires\<close>
  cleared.
\<close>

theorem stale_bookExpires_after_confirm:
  "reachable confirmState
   \<and> step (state_of (handleMessage demoEnv confirmState ''yes'')) = slot_list
   \<and> bookExpires (state_of (handleMessage demoEnv confirmState ''yes'')) = Some (Date 1000)
   \<and> step (state_of (handleMessage (demoEnv\<lparr>now := 500\<rparr>) confirmState ''yes'')) = slot_list
   \<and> bookExpires (state_of (handleMessage (demoEnv\<lparr>now := 500\<rparr>) confirmState ''yes''))
        = Some (Date 1000)
   \<and> step (state_of (handleMessage demoEnv confirmState ''no'')) = slot_list
   \<and> bookExpires (state_of (handleMessage demoEnv confirmState ''no'')) = None"
proof -
  have c: "step confirmState = confirm"
    by (simp add: confirmState_def)
  have a: "handleMessage demoEnv confirmState ''yes'' = stepConfirm demoEnv confirmState ''yes''"
    using handleMessage_confirm [of "''yes''" confirmState demoEnv] c lower_yes by simp
  have b: "handleMessage (demoEnv\<lparr>now := 500\<rparr>) confirmState ''yes''
             = stepConfirm (demoEnv\<lparr>now := 500\<rparr>) confirmState ''yes''"
    using handleMessage_confirm [of "''yes''" confirmState "demoEnv\<lparr>now := 500\<rparr>"] c lower_yes
    by simp
  have d: "handleMessage demoEnv confirmState ''no'' = stepConfirm demoEnv confirmState ''no''"
    using handleMessage_confirm [of "''no''" confirmState demoEnv] c lower_no by simp
  have "step (state_of (stepConfirm demoEnv confirmState ''yes'')) = slot_list
   \<and> bookExpires (state_of (stepConfirm demoEnv confirmState ''yes'')) = Some (Date 1000)
   \<and> step (state_of (stepConfirm (demoEnv\<lparr>now := 500\<rparr>) confirmState ''yes'')) = slot_list
   \<and> bookExpires (state_of (stepConfirm (demoEnv\<lparr>now := 500\<rparr>) confirmState ''yes''))
        = Some (Date 1000)
   \<and> step (state_of (stepConfirm demoEnv confirmState ''no'')) = slot_list
   \<and> bookExpires (state_of (stepConfirm demoEnv confirmState ''no'')) = None"
    by (simp add: stepConfirm_def expired_def apiBook_def state_of_def confirmState_def
          demoEnv_def Let_def)
  with demo_reachable(3) show ?thesis
    by (simp add: a b d)
qed

lemma venue_list_fallback:
  assumes "step st = venue_list"
    and "trim (toLowerCase txt) \<noteq> ''reset''" and "trim (toLowerCase txt) \<noteq> ''start over''"
    and "trim (toLowerCase txt) \<noteq> ''back''"
    and "invalid_choice (parseInt (trim (toLowerCase txt))) (length (orElse (venues st) []))"
  shows "handleMessage e st txt = handleMessage e reset txt"
    and "handleMessage e reset txt = stepIdle e reset txt"
  using assms by (simp_all add: handleMessage_venue_list handleMessage_idle)

text \<open>
  C4. The code at a session in step \<open>venue_list\<close> with two venues, which arises from
  the start. The input \<open>tacos\<close>
  has no leading integer and is handled as the same text on a fresh session. The input
  \<open>2 tacos\<close> is not an integer either, and on a fresh session it starts a new search;
  but \<open>parseInt\<close> reads its leading \<open>2\<close>, so in \<open>venue_list\<close> the turn asks for the
  availability of the second venue and goes to \<open>slot_list\<close>, and no new search is made.
\<close>

theorem leading_digit_picks_venue:
  "reachable listState
   \<and> invalid_choice (parseInt ''tacos'') 2
   \<and> handleMessage demoEnv listState ''tacos'' = handleMessage demoEnv reset ''tacos''
   \<and> calls_of (handleMessage demoEnv reset ''2 tacos'')
        = [ExtractSearch ''2 tacos'', ApiSearch ''pizza'' ''New York, NY'' 0 0]
   \<and> step (state_of (handleMessage demoEnv reset ''2 tacos'')) = venue_list
   \<and> parseInt ''2 tacos'' = Some 2
   \<and> calls_of (handleMessage demoEnv listState ''2 tacos'')
        = [ApiAvailability 3 ''2024-06-02'' 2 0 0]
   \<and> step (state_of (handleMessage demoEnv listState ''2 tacos'')) = slot_list
   \<and> pickedVenue (state_of (handleMessage demoEnv listState ''2 tacos'')) = Some venueB"
proof -
  have l1: "trim (toLowerCase ''tacos'') = ''tacos''" and l2: "trim (toLowerCase ''2 tacos'') = ''2 tacos''"
    by code_simp+
  have p1: "parseInt ''tacos'' = None" and p2: "parseInt ''2 tacos'' = Some 2"
    by code_simp+
  have s: "step listState = venue_list" "venues listState = Some [venueA, venueB]"
    by (simp_all add: listState_def)
  have a: "handleMessage demoEnv listState ''tacos'' = handleMessage demoEnv reset ''tacos''"
    using venue_list_fallback(1) [of listState "''tacos''" demoEnv] s l1 p1
    by (simp add: invalid_choice_def)
  have pv: "parseVenues (Some demoHits) ''New York, NY'' = [venueA, venueB]"
    by code_simp
  have b: "handleMessage demoEnv reset ''2 tacos'' = stepIdle demoEnv reset ''2 tacos''"
    using handleMessage_idle [of "''2 tacos''" reset demoEnv] l2 by simp
  have c: "handleMessage demoEnv listState ''2 tacos'' = stepVenuePicked demoEnv listState 2"
    using handleMessage_venue_list [of "''2 tacos''" listState demoEnv] s l2 p2
    by (simp add: invalid_choice_def)
  have d: "stepIdle demoEnv reset ''2 tacos'' =
      (listState, [ExtractSearch ''2 tacos'', ApiSearch ''pizza'' ''New York, NY'' 0 0],
       Inr (VenueList [venueA, venueB] demoSearch))"
    by (simp add: stepIdle_def apiSearch_def ok_def demoEnv_def demoSearch_def pv listState_def
          Let_def)
  have f: "calls_of (stepVenuePicked demoEnv listState 2) = [ApiAvailability 3 ''2024-06-02'' 2 0 0]
     \<and> step (state_of (stepVenuePicked demoEnv listState 2)) = slot_list
     \<and> pickedVenue (state_of (stepVenuePicked demoEnv listState 2)) = Some venueB"
    by (simp add: stepVenuePicked_def apiAvailability_def ok_def demoEnv_def demoSearch_def
          listState_def venueB_def calls_of_def state_of_def Let_def)
  show ?thesis
    using a f p1 p2 demo_reachable(1)
    by (simp add: b c d s invalid_choice_def calls_of_def state_of_def)
qed

lemma stepSlotList_out_of_range:
  "lower \<noteq> ''back'' \<Longrightarrow>
   invalid_choice (parseInt lower) (min (length (orElse (slots st) [])) 10) \<Longrightarrow>
   stepSlotList e st lower
     = (st, [], Inr (PickNumber (min (length (orElse (slots st) [])) 10)))"
  by (simp add: stepSlotList_def Let_def)

lemma parseInt_back: "parseInt ''back'' = None"
  by code_simp

lemma parseInt_reset: "parseInt ''reset'' = None" "parseInt ''start over'' = None"
  by code_simp+

lemma run_Nil [simp]: "run [] = reset"
  by (simp add: run_def)

lemma run_snoc [simp]: "run (turns @ [(e, txt)]) = state_of (handleMessage e (run turns) txt)"
  by (simp add: run_def)

lemma parseSlots_chosen:
  "(orElse data [] = [] \<longrightarrow> parseSlots data i = [])
   \<and> (\<forall>v. chosen_entry (orElse data []) i v \<longrightarrow>
          parseSlots data i = map toSlot (orElse (av_slots v) []))
   \<and> (orElse data [] \<noteq> [] \<longrightarrow> (\<exists>v. chosen_entry (orElse data []) i v))"
proof (cases "find (\<lambda>v. av_venue_id_resy v = Some i) (orElse data [])")
  case None
  then have no: "\<forall>u \<in> set (orElse data []). av_venue_id_resy u \<noteq> Some i"
    by (simp add: find_None_iff)
  then have ch: "chosen_entry (orElse data []) i v \<longleftrightarrow> orElse data [] \<noteq> [] \<and> v = hd (orElse data [])"
    for v
    by (auto simp: chosen_entry_def)
  from None have ps: "parseSlots data i =
      (case orElse data [] of [] \<Rightarrow> [] | v # _ \<Rightarrow> map toSlot (orElse (av_slots v) []))"
    by (simp add: parseSlots_def split: list.splits)
  show ?thesis
  proof (cases "orElse data []")
    case Nil
    then show ?thesis
      by (simp add: ps chosen_entry_def)
  next
    case (Cons a as)
    then have "chosen_entry (orElse data []) i v \<longleftrightarrow> v = a" for v
      using ch [of v] by simp
    with Cons show ?thesis
      by (simp add: ps)
  qed
next
  case (Some x)
  then obtain k where k: "k < length (orElse data [])" "x = orElse data [] ! k"
      "av_venue_id_resy x = Some i" "\<forall>j < k. av_venue_id_resy (orElse data [] ! j) \<noteq> Some i"
    by (auto simp: find_Some_iff)
  have ch: "chosen_entry (orElse data []) i v \<longleftrightarrow> v = x" for v
  proof
    assume "chosen_entry (orElse data []) i v"
    then consider k' where "k' < length (orElse data [])" "v = orElse data [] ! k'"
        "av_venue_id_resy v = Some i" "\<forall>j < k'. av_venue_id_resy (orElse data [] ! j) \<noteq> Some i"
      | "\<forall>u \<in> set (orElse data []). av_venue_id_resy u \<noteq> Some i"
      by (auto simp: chosen_entry_def)
    then show "v = x"
    proof cases
      case (1 k')
      with k have "k' = k"
        by (metis linorder_neqE_nat)
      with 1 k show ?thesis by simp
    next
      case 2
      with k show ?thesis by (metis nth_mem)
    qed
  next
    assume "v = x"
    with k show "chosen_entry (orElse data []) i v"
      unfolding chosen_entry_def by blast
  qed
  from Some k(1) show ?thesis
    by (auto simp: parseSlots_def ch)
qed

lemma pick_turn:
  assumes "step st = venue_list"
    and "step (state_of (handleMessage e st txt)) = slot_list
         \<or> step (state_of (handleMessage e st txt)) = confirm"
  shows "\<exists>k vs s data. venues st = Some vs \<and> search st = Some s
           \<and> parseInt (trim (toLowerCase txt)) = Some k \<and> 1 \<le> k \<and> k \<le> int (length vs)
           \<and> apiAvailability e (vid (vs ! nat (k - 1))) (day s) (party_size s) (lat s) (lng s)
                = Inr data
           \<and> pickedVenue (state_of (handleMessage e st txt)) = Some (vs ! nat (k - 1))
           \<and> slots (state_of (handleMessage e st txt))
                = Some (parseSlots data (vid (vs ! nat (k - 1))))"
proof -
  let ?lower = "trim (toLowerCase txt)"
  let ?st' = "state_of (handleMessage e st txt)"
  have nr: "?lower \<noteq> ''reset''" "?lower \<noteq> ''start over''"
    using assms(2) by (auto simp: handleMessage_reset_cmd state_of_def)
  have hm: "handleMessage e st txt =
     (if ?lower = ''back'' then (reset, [], Inr WhatSearch)
      else if invalid_choice (parseInt ?lower) (length (orElse (venues st) []))
        then stepIdle e reset txt
      else stepVenuePicked e st (the (parseInt ?lower)))"
    using nr assms(1) by (rule handleMessage_venue_list)
  have idle: "step (state_of (stepIdle e reset txt)) \<noteq> slot_list"
      "step (state_of (stepIdle e reset txt)) \<noteq> confirm"
    by (auto simp: stepIdle_def state_of_def Let_def split: sum.splits)
  have nb: "?lower \<noteq> ''back''"
    using assms(2) by (auto simp: hm state_of_def)
  have valid: "\<not> invalid_choice (parseInt ?lower) (length (orElse (venues st) []))"
    using assms(2) nb idle by (auto simp: hm)
  then obtain k where k: "parseInt ?lower = Some k" "1 \<le> k"
      "k \<le> int (length (orElse (venues st) []))"
    by (cases "parseInt ?lower") (auto simp: invalid_choice_def)
  from k(2,3) obtain vs where vs: "venues st = Some vs"
    by (cases "venues st") auto
  have eq: "?st' = state_of (stepVenuePicked e st k)"
    using nb valid k(1) by (simp add: hm)
  from assms(1,2) obtain s where s: "search st = Some s"
    unfolding eq by (cases "search st") (auto simp: stepVenuePicked_def state_of_def Let_def)
  let ?venue = "vs ! nat (k - 1)"
  from assms(1,2) s vs obtain data where
    d: "apiAvailability e (vid ?venue) (day s) (party_size s) (lat s) (lng s) = Inr data"
    unfolding eq
    by (cases "apiAvailability e (vid ?venue) (day s) (party_size s) (lat s) (lng s)")
       (auto simp: stepVenuePicked_def state_of_def Let_def)
  from s d vs have "pickedVenue ?st' = Some ?venue" "slots ?st' = Some (parseSlots data (vid ?venue))"
    unfolding eq by (simp_all add: stepVenuePicked_def state_of_def Let_def)
  with vs s k d show ?thesis by auto
qed

lemma keep_turn:
  assumes "step st = slot_list \<or> step st = confirm"
    and "step (state_of (handleMessage e st txt)) = slot_list
         \<or> step (state_of (handleMessage e st txt)) = confirm"
  shows "slots (state_of (handleMessage e st txt)) = slots st
       \<and> pickedVenue (state_of (handleMessage e st txt)) = pickedVenue st"
proof -
  have nr: "trim (toLowerCase txt) \<noteq> ''reset''" "trim (toLowerCase txt) \<noteq> ''start over''"
    using assms(2) by (auto simp: handleMessage_reset_cmd state_of_def)
  from assms(1) show ?thesis
  proof
    assume sl: "step st = slot_list"
    have "handleMessage e st txt = stepSlotList e st (trim (toLowerCase txt))"
      using nr sl by (rule handleMessage_slot_list)
    with assms(2) show ?thesis
      by (auto simp: stepSlotList_def state_of_def Let_def
               split: sum.splits option.splits if_splits)
  next
    assume c: "step st = confirm"
    have "handleMessage e st txt = stepConfirm e st (trim (toLowerCase txt))"
      using nr c by (rule handleMessage_confirm)
    with assms(2) show ?thesis
      by (auto simp: stepConfirm_def state_of_def Let_def
               split: sum.splits option.splits if_splits)
  qed
qed

lemma idle_turn:
  assumes "step st = idle"
  shows "step (state_of (handleMessage e st txt)) \<noteq> slot_list
       \<and> step (state_of (handleMessage e st txt)) \<noteq> confirm"
proof (cases "trim (toLowerCase txt) = ''reset'' \<or> trim (toLowerCase txt) = ''start over''")
  case True
  then show ?thesis
    by (simp add: handleMessage_reset_cmd state_of_def)
next
  case False
  with assms have "handleMessage e st txt = stepIdle e st txt"
    by (simp add: handleMessage_idle)
  with assms show ?thesis
    by (auto simp: stepIdle_def state_of_def Let_def split: sum.splits)
qed

lemma holds_pick_run:
  "step (run turns) = slot_list \<or> step (run turns) = confirm \<Longrightarrow>
   \<exists>pre e inp post. turns = pre @ (e, inp) # post \<and> holds_pick pre e inp post (run turns)"
proof (induction turns rule: rev_induct)
  case Nil
  then show ?case by simp
next
  case (snoc x turns)
  obtain e inp where x: "x = (e, inp)"
    by (cases x)
  let ?st = "run turns" and ?st' = "state_of (handleMessage e (run turns) inp)"
  from snoc(2) x have st': "step ?st' = slot_list \<or> step ?st' = confirm"
    by simp
  have keep: ?case if old: "step ?st = slot_list \<or> step ?st = confirm"
  proof -
    from snoc(1) [OF old] obtain pre e0 inp0 post where
      t: "turns = pre @ (e0, inp0) # post" and h: "holds_pick pre e0 inp0 post ?st"
      by blast
    from keep_turn [OF old st'] have same: "slots ?st' = slots ?st" "pickedVenue ?st' = pickedVenue ?st"
      by simp_all
    have "step (run (pre @ (e0, inp0) # q)) \<in> {slot_list, confirm}"
      if "q = post @ [(e, inp)]" for q
    proof -
      from that t have "pre @ (e0, inp0) # q = turns @ [(e, inp)]"
        by simp
      with st' show ?thesis
        by (auto simp del: append_assoc)
    qed
    with h same have "holds_pick pre e0 inp0 (post @ [(e, inp)]) ?st'"
      unfolding holds_pick_def prefix_snoc by metis
    moreover from t have "turns @ [x] = pre @ (e0, inp0) # (post @ [(e, inp)])"
      by (simp add: x)
    ultimately show ?thesis
      unfolding x run_snoc by blast
  qed
  show ?case
  proof (cases "step ?st")
    case idle
    with st' idle_turn [of ?st e inp] show ?thesis by simp
  next
    case venue_list
    from pick_turn [OF venue_list st'] obtain k vs s data where
      "venues ?st = Some vs" "search ?st = Some s"
      "parseInt (trim (toLowerCase inp)) = Some k" "1 \<le> k" "k \<le> int (length vs)"
      "apiAvailability e (vid (vs ! nat (k - 1))) (day s) (party_size s) (lat s) (lng s) = Inr data"
      "pickedVenue ?st' = Some (vs ! nat (k - 1))"
      "slots ?st' = Some (parseSlots data (vid (vs ! nat (k - 1))))"
      by blast
    with venue_list st' have "holds_pick turns e inp [] ?st'"
      unfolding holds_pick_def by auto
    then show ?thesis
      unfolding x run_snoc by blast
  next
    case slot_list
    then show ?thesis by (simp add: keep)
  next
    case confirm
    then show ?thesis by (simp add: keep)
  qed
qed

lemma out_of_range_turn:
  assumes "step st = slot_list" and "parseInt (trim (toLowerCase inp)) = Some k"
    and "k < 1 \<or> k > int (min (length (orElse (slots st) [])) 10)"
  shows "state_of (handleMessage e st inp) = st"
proof -
  from assms(2) have nr: "trim (toLowerCase inp) \<noteq> ''reset''"
      "trim (toLowerCase inp) \<noteq> ''start over''" and nb: "trim (toLowerCase inp) \<noteq> ''back''"
    using parseInt_reset parseInt_back by auto
  have hm: "handleMessage e st inp = stepSlotList e st (trim (toLowerCase inp))"
    using nr assms(1) by (rule handleMessage_slot_list)
  from assms(2,3) have
    "invalid_choice (parseInt (trim (toLowerCase inp))) (min (length (orElse (slots st) [])) 10)"
    by (simp add: invalid_choice_def)
  with nb show ?thesis
    by (simp add: hm stepSlotList_out_of_range state_of_def)
qed

lemma reachable_run: "reachable st \<longleftrightarrow> (\<exists>turns. st = run turns)"
proof
  assume "reachable st"
  then show "\<exists>turns. st = run turns"
  proof induction
    case start
    have "reset = run []" by simp
    then show ?case ..
  next
    case (turn st e inp)
    then obtain turns where "st = run turns" by blast
    then have "state_of (handleMessage e st inp) = run (turns @ [(e, inp)])"
      by simp
    then show ?case ..
  qed
next
  assume "\<exists>turns. st = run turns"
  then obtain turns where "st = run turns" ..
  moreover have "reachable (run turns)"
  proof (induction turns rule: rev_induct)
    case Nil
    show ?case by (simp add: reachable.start)
  next
    case (snoc x turns)
    then show ?case
      by (cases x) (simp add: reachable.turn)
  qed
  ultimately show "reachable st" by simp
qed

text \<open>
  C6, as the code has it. A session is what a sequence of turns leaves from the start,
  each turn with its own outside (\<open>run\<close>; these are the sessions the program can be
  in). Whenever it is in step \<open>slot_list\<close>, an earlier turn picked a venue: the session
  was in step \<open>venue_list\<close>, the text read as a number \<open>k\<close> within the list, the
  availability call for venue \<open>k\<close> of the list answered, and every turn since has left
  the session in \<open>slot_list\<close> or \<open>confirm\<close>. \<open>pickedVenue\<close> is that venue, and \<open>slots\<close>
  is made from that answer: no slot when the answer has no entry, else one slot for each
  slot of the chosen entry (the first entry with the venue's identifier, the first entry
  when none has it), in the order of the answer and none dropped, so that there may be
  more than 10. The limit of 10 is on the choice only: in \<open>slot_list\<close> a number below 1
  or above the smaller of 10 and the number of slots leaves the session as it was.
\<close>

theorem slot_list_slots:
  fixes turns :: "(env \<times> string) list"
  assumes "step (run turns) = slot_list"
  shows "(\<exists>pre e inp post k vs s data.
       turns = pre @ (e, inp) # post
     \<and> step (run pre) = venue_list \<and> venues (run pre) = Some vs \<and> search (run pre) = Some s
     \<and> parseInt (trim (toLowerCase inp)) = Some k \<and> 1 \<le> k \<and> k \<le> int (length vs)
     \<and> apiAvailability e (vid (vs ! nat (k - 1))) (day s) (party_size s) (lat s) (lng s)
          = Inr data
     \<and> (\<forall>q. prefix q post \<longrightarrow> step (run (pre @ (e, inp) # q)) \<in> {slot_list, confirm})
     \<and> pickedVenue (run turns) = Some (vs ! nat (k - 1))
     \<and> (if orElse data [] = [] then slots (run turns) = Some []
         else \<exists>v. chosen_entry (orElse data []) (vid (vs ! nat (k - 1))) v
                \<and> slots (run turns) = Some (map toSlot (orElse (av_slots v) []))))
   \<and> (\<forall>e inp k. parseInt (trim (toLowerCase inp)) = Some k
          \<and> (k < 1 \<or> k > int (min (length (orElse (slots (run turns)) [])) 10)) \<longrightarrow>
        run (turns @ [(e, inp)]) = run turns)"
proof
  from assms have "step (run turns) = slot_list \<or> step (run turns) = confirm"
    by simp
  from holds_pick_run [OF this] obtain pre e inp post k vs s data where
    h: "turns = pre @ (e, inp) # post"
      "step (run pre) = venue_list" "venues (run pre) = Some vs" "search (run pre) = Some s"
      "parseInt (trim (toLowerCase inp)) = Some k" "1 \<le> k" "k \<le> int (length vs)"
      "apiAvailability e (vid (vs ! nat (k - 1))) (day s) (party_size s) (lat s) (lng s) = Inr data"
      "\<forall>q. prefix q post \<longrightarrow> step (run (pre @ (e, inp) # q)) \<in> {slot_list, confirm}"
      "pickedVenue (run turns) = Some (vs ! nat (k - 1))"
    and sl: "slots (run turns) = Some (parseSlots data (vid (vs ! nat (k - 1))))"
    unfolding holds_pick_def by blast
  have "if orElse data [] = [] then slots (run turns) = Some []
        else \<exists>v. chosen_entry (orElse data []) (vid (vs ! nat (k - 1))) v
               \<and> slots (run turns) = Some (map toSlot (orElse (av_slots v) []))"
    using parseSlots_chosen [of data "vid (vs ! nat (k - 1))"] sl by auto
  with h show "\<exists>pre e inp post k vs s data.
       turns = pre @ (e, inp) # post
     \<and> step (run pre) = venue_list \<and> venues (run pre) = Some vs \<and> search (run pre) = Some s
     \<and> parseInt (trim (toLowerCase inp)) = Some k \<and> 1 \<le> k \<and> k \<le> int (length vs)
     \<and> apiAvailability e (vid (vs ! nat (k - 1))) (day s) (party_size s) (lat s) (lng s)
          = Inr data
     \<and> (\<forall>q. prefix q post \<longrightarrow> step (run (pre @ (e, inp) # q)) \<in> {slot_list, confirm})
     \<and> pickedVenue (run turns) = Some (vs ! nat (k - 1))
     \<and> (if orElse data [] = [] then slots (run turns) = Some []
         else \<exists>v. chosen_entry (orElse data []) (vid (vs ! nat (k - 1))) v
                \<and> slots (run turns) = Some (map toSlot (orElse (av_slots v) [])))"
    by blast
next
  from assms show "\<forall>e inp k. parseInt (trim (toLowerCase inp)) = Some k
          \<and> (k < 1 \<or> k > int (min (length (orElse (slots (run turns)) [])) 10)) \<longrightarrow>
        run (turns @ [(e, inp)]) = run turns"
    by (auto simp: out_of_range_turn)
qed

theorem slot_list_slots_witness:
  "step (run [(demoEnv, ''pizza''), (demoEnv, ''1'')]) = slot_list
   \<and> slots (run [(demoEnv, ''pizza''), (demoEnv, ''1'')]) = Some (replicate 11 demoSlot)
   \<and> (\<exists>pre e inp post k vs s data.
         [(demoEnv, ''pizza''), (demoEnv, ''1'')] = pre @ (e, inp) # post
       \<and> step (run pre) = venue_list \<and> venues (run pre) = Some vs \<and> search (run pre) = Some s
       \<and> parseInt (trim (toLowerCase inp)) = Some k \<and> 1 \<le> k \<and> k \<le> int (length vs)
       \<and> apiAvailability e (vid (vs ! nat (k - 1))) (day s) (party_size s) (lat s) (lng s)
            = Inr data
       \<and> (\<forall>q. prefix q post \<longrightarrow> step (run (pre @ (e, inp) # q)) \<in> {slot_list, confirm})
       \<and> pickedVenue (run [(demoEnv, ''pizza''), (demoEnv, ''1'')]) = Some (vs ! nat (k - 1))
       \<and> (if orElse data [] = []
           then slots (run [(demoEnv, ''pizza''), (demoEnv, ''1'')]) = Some []
           else \<exists>v. chosen_entry (orElse data []) (vid (vs ! nat (k - 1))) v
                  \<and> slots (run [(demoEnv, ''pizza''), (demoEnv, ''1'')])
                       = Some (map toSlot (orElse (av_slots v) []))))
   \<and> parseInt (trim (toLowerCase ''11'')) = Some 11
   \<and> run ([(demoEnv, ''pizza''), (demoEnv, ''1'')] @ [(demoEnv, ''11'')])
        = run [(demoEnv, ''pizza''), (demoEnv, ''1'')]"
proof -
  let ?T = "[(demoEnv, ''pizza''), (demoEnv, ''1'')]"
  have r: "run ?T = elevenSlotsState"
    by (simp add: run_def elevenSlotsState_def)
  have s: "step (run ?T) = slot_list" "slots (run ?T) = Some (replicate 11 demoSlot)"
    by (simp_all add: r elevenSlotsState_eq)
  have p: "parseInt (trim (toLowerCase ''11'')) = Some 11"
    by code_simp
  note t = slot_list_slots [OF s(1)]
  from t have a: "\<exists>pre e inp post k vs s data.
         ?T = pre @ (e, inp) # post
       \<and> step (run pre) = venue_list \<and> venues (run pre) = Some vs \<and> search (run pre) = Some s
       \<and> parseInt (trim (toLowerCase inp)) = Some k \<and> 1 \<le> k \<and> k \<le> int (length vs)
       \<and> apiAvailability e (vid (vs ! nat (k - 1))) (day s) (party_size s) (lat s) (lng s)
            = Inr data
       \<and> (\<forall>q. prefix q post \<longrightarrow> step (run (pre @ (e, inp) # q)) \<in> {slot_list, confirm})
       \<and> pickedVenue (run ?T) = Some (vs ! nat (k - 1))
       \<and> (if orElse data [] = [] then slots (run ?T) = Some []
           else \<exists>v. chosen_entry (orElse data []) (vid (vs ! nat (k - 1))) v
                  \<and> slots (run ?T) = Some (map toSlot (orElse (av_slots v) [])))"
    by (rule conjunct1)
  from t have "\<forall>e inp k. parseInt (trim (toLowerCase inp)) = Some k
          \<and> (k < 1 \<or> k > int (min (length (orElse (slots (run ?T)) [])) 10)) \<longrightarrow>
        run (?T @ [(e, inp)]) = run ?T"
    by (rule conjunct2)
  then have "parseInt (trim (toLowerCase ''11'')) = Some 11
          \<and> (11 < (1::int) \<or> 11 > int (min (length (orElse (slots (run ?T)) [])) 10)) \<longrightarrow>
        run (?T @ [(demoEnv, ''11'')]) = run ?T"
    by blast
  with p s(2) have c: "run (?T @ [(demoEnv, ''11'')]) = run ?T"
    by simp
  show ?thesis
    using s a p c by (intro conjI)
qed

text \<open>
  The session after the turns \<open>pizza\<close> and \<open>1\<close>, from the start, when the availability
  response has eleven slots: it is in step \<open>slot_list\<close> and holds eleven slots.
\<close>

theorem slots_more_than_ten_counterexample:
  "reachable elevenSlotsState
   \<and> step elevenSlotsState = slot_list
   \<and> slots elevenSlotsState = Some (replicate 11 demoSlot)
   \<and> \<not> (step elevenSlotsState = slot_list
          \<longrightarrow> length (orElse (slots elevenSlotsState) []) \<le> 10)"
proof -
  have "step elevenSlotsState = slot_list" "slots elevenSlotsState = Some (replicate 11 demoSlot)"
    by (simp_all add: elevenSlotsState_eq)
  with demo_reachable(2) show ?thesis by simp
qed

section \<open>The gateway, event by event\<close>

lemma admit_out_of_scope: "\<not> inScope myId msg \<Longrightarrow> admit myId g msg = (g, Ignored)"
  by (simp add: admit_def)

lemma admit_duplicate:
  "inScope myId msg \<Longrightarrow> guid msg \<in> seenGuids g \<Longrightarrow> admit myId g msg = (g, Duplicate)"
  by (simp add: admit_def Let_def)

lemma admit_echo:
  "inScope myId msg \<Longrightarrow> guid msg \<notin> seenGuids g \<Longrightarrow>
   echoOf (botSentTexts g) (trim (orElse (msg_text msg) [])) = Some sent \<Longrightarrow>
   admit myId g msg =
     (g\<lparr>seenGuids := insert (guid msg) (seenGuids g),
        botSentTexts := set_delete sent (botSentTexts g)\<rparr>, Echo)"
  by (simp add: admit_def Let_def)

lemma admit_busy:
  "inScope myId msg \<Longrightarrow> guid msg \<notin> seenGuids g \<Longrightarrow>
   echoOf (botSentTexts g) (trim (orElse (msg_text msg) [])) = None \<Longrightarrow> processing g \<Longrightarrow>
   admit myId g msg = (g\<lparr>seenGuids := insert (guid msg) (seenGuids g)\<rparr>, Busy)"
  by (simp add: admit_def Let_def)

lemma admit_admitted:
  "inScope myId msg \<Longrightarrow> guid msg \<notin> seenGuids g \<Longrightarrow>
   echoOf (botSentTexts g) (trim (orElse (msg_text msg) [])) = None \<Longrightarrow> \<not> processing g \<Longrightarrow>
   admit myId g msg =
     (g\<lparr>seenGuids := insert (guid msg) (seenGuids g), processing := True\<rparr>,
      Admitted (trim (orElse (msg_text msg) [])))"
  by (simp add: admit_def Let_def)

lemma admit_cases:
  obtains (ignored) "\<not> inScope myId msg" "admit myId g msg = (g, Ignored)"
  | (duplicate) "inScope myId msg" "guid msg \<in> seenGuids g" "admit myId g msg = (g, Duplicate)"
  | (echo) sent where "inScope myId msg" "guid msg \<notin> seenGuids g"
      "echoOf (botSentTexts g) (trim (orElse (msg_text msg) [])) = Some sent"
      "admit myId g msg =
         (g\<lparr>seenGuids := insert (guid msg) (seenGuids g),
            botSentTexts := set_delete sent (botSentTexts g)\<rparr>, Echo)"
  | (busy) "inScope myId msg" "guid msg \<notin> seenGuids g"
      "echoOf (botSentTexts g) (trim (orElse (msg_text msg) [])) = None" "processing g"
      "admit myId g msg = (g\<lparr>seenGuids := insert (guid msg) (seenGuids g)\<rparr>, Busy)"
  | (admitted) "inScope myId msg" "guid msg \<notin> seenGuids g"
      "echoOf (botSentTexts g) (trim (orElse (msg_text msg) [])) = None" "\<not> processing g"
      "admit myId g msg =
         (g\<lparr>seenGuids := insert (guid msg) (seenGuids g), processing := True\<rparr>,
          Admitted (trim (orElse (msg_text msg) [])))"
  using admit_out_of_scope admit_duplicate admit_echo admit_busy admit_admitted
  by (cases "echoOf (botSentTexts g) (trim (orElse (msg_text msg) []))") blast+

lemma admit_session: "session (fst (admit myId g msg)) = session g"
  by (cases myId msg g rule: admit_cases) simp_all

lemma admit_seen: "seenGuids g \<subseteq> seenGuids (fst (admit myId g msg))"
  by (cases myId msg g rule: admit_cases) auto

lemma admit_processing: "processing g \<Longrightarrow> processing (fst (admit myId g msg))"
  by (cases myId msg g rule: admit_cases) simp_all

lemma admit_not_admitted: "processing g \<Longrightarrow> snd (admit myId g msg) \<noteq> Admitted t"
  by (cases myId msg g rule: admit_cases) simp_all

lemma onMessage_dropped:
  "admit myId g msg = (g1, a) \<Longrightarrow> \<forall>t. a \<noteq> Admitted t \<Longrightarrow>
   onMessage myId tr e g msg = (g1, [], None)"
  by (cases a) (simp_all add: onMessage_def)

lemma onMessage_admitted:
  "admit myId g msg = (g1, Admitted t) \<Longrightarrow> onMessage myId tr e g msg = turn tr e g1 msg t"
  by (simp add: onMessage_def)

lemma demoMsg_inScope:
  "inScope ''me'' (demoMsg gid ''pizza'')" "inScope ''me'' (demoMsg gid ''reply'')"
  "inScope ''me'' (demoMsg gid ''reset'')"
  by (simp_all add: inScope_def demoMsg_def trim_def is_space_def)

lemma demoMsg_text:
  "trim (orElse (msg_text (demoMsg gid ''pizza'')) []) = ''pizza''"
  "trim (orElse (msg_text (demoMsg gid ''reply'')) []) = ''reply''"
  "trim (orElse (msg_text (demoMsg gid ''reset'')) []) = ''reset''"
  by (simp_all add: demoMsg_def trim_def is_space_def)

text \<open>
  C7. For every event that arrives while \<open>processing\<close> is true, whatever the event:
  \<open>onMessage\<close> has no effect that can be observed, so \<open>handleMessage\<close> is not called
  and nothing is sent; the session is left as it was, and \<open>processing\<close> stays true.
\<close>

theorem busy_gateway_drops_event:
  assumes "processing g"
  shows "snd (onMessage myId tr e g msg) = ([], None)
       \<and> session (fst (onMessage myId tr e g msg)) = session g
       \<and> processing (fst (onMessage myId tr e g msg))"
proof -
  obtain g1 a where ad: "admit myId g msg = (g1, a)"
    by (cases "admit myId g msg")
  have "\<forall>t. a \<noteq> Admitted t"
    using admit_not_admitted [OF assms, of myId msg] ad by simp
  with ad have "onMessage myId tr e g msg = (g1, [], None)"
    by (rule onMessage_dropped)
  moreover have "session g1 = session g"
    using admit_session [of myId g msg] ad by simp
  moreover have "processing g1"
    using admit_processing [OF assms, of myId msg] ad by simp
  ultimately show ?thesis by simp
qed

theorem busy_gateway_drops_event_witness:
  "processing busyGateway
   \<and> onMessage ''me'' demoTransport demoEnv busyGateway (demoMsg ''g2'' ''pizza'')
        = (consumedGateway, [], None)"
proof -
  have p: "processing busyGateway"
    by (simp add: busyGateway_def)
  have "echoOf (botSentTexts busyGateway) ''pizza'' = None"
    by (simp add: echoOf_def busyGateway_def demoGateway_def)
  then have "admit ''me'' busyGateway (demoMsg ''g2'' ''pizza'')
      = (busyGateway\<lparr>seenGuids := insert (guid (demoMsg ''g2'' ''pizza'')) (seenGuids busyGateway)\<rparr>, Busy)"
    using p by (intro admit_busy) (simp_all add: demoMsg_inScope demoMsg_text, simp add: busyGateway_def demoGateway_def demoMsg_def)
  then have "fst (onMessage ''me'' demoTransport demoEnv busyGateway (demoMsg ''g2'' ''pizza''))
      = consumedGateway"
    by (simp add: onMessage_def consumedGateway_def demoMsg_def)
  with busy_gateway_drops_event [OF p, of "''me''" demoTransport demoEnv "demoMsg ''g2'' ''pizza''"] p
  show ?thesis
    by (simp add: prod_eq_iff)
qed

lemma turn_seen: "seenGuids (fst (turn tr e g msg t)) = seenGuids g"
  by (simp add: turn_def failed_def Let_def split: prod.splits sum.splits option.splits)

lemma gw_step_seen: "gw_step myId tr g g' \<Longrightarrow> seenGuids g \<subseteq> seenGuids g'"
  by (induction rule: gw_step.induct) (simp_all add: admit_seen turn_seen)

lemma gw_steps_seen: "gw_steps myId tr g g' \<Longrightarrow> seenGuids g \<subseteq> seenGuids g'"
  unfolding gw_steps_def
  by (induction rule: rtranclp_induct) (auto dest: gw_step_seen)

lemma admit_seen_guid:
  "guid msg \<in> seenGuids g \<Longrightarrow>
   admit myId g msg = (g, Ignored) \<or> admit myId g msg = (g, Duplicate)"
  by (cases myId msg g rule: admit_cases) simp_all

lemma admit_busyGateway:
  "admit ''me'' busyGateway (demoMsg ''g2'' ''pizza'') = (consumedGateway, Busy)"
proof -
  have p: "processing busyGateway"
    by (simp add: busyGateway_def)
  have "echoOf (botSentTexts busyGateway) ''pizza'' = None"
    by (simp add: echoOf_def busyGateway_def demoGateway_def)
  then have "admit ''me'' busyGateway (demoMsg ''g2'' ''pizza'')
      = (busyGateway\<lparr>seenGuids := insert (guid (demoMsg ''g2'' ''pizza'')) (seenGuids busyGateway)\<rparr>, Busy)"
    using p by (intro admit_busy) (simp_all add: demoMsg_inScope demoMsg_text, simp add: busyGateway_def demoGateway_def demoMsg_def)
  then show ?thesis
    by (simp add: consumedGateway_def demoMsg_def)
qed

text \<open>
  C10. An event dropped because \<open>processing\<close> was true had an identifier not seen
  before, and the identifier is in \<open>seenGuids\<close> when the event is dropped: for that
  event \<open>handleMessage\<close> is not called and nothing is sent. On every gateway reached
  later, through any arrivals and any turns that end, an event with the same identifier
  is dropped by the scope filter or as a duplicate, changes nothing and has no effect:
  the event is never handled.
\<close>

theorem busy_drop_is_final:
  assumes "admit myId g msg = (g1, Busy)"
    and "gw_steps myId tr g1 g2"
    and "guid msg' = guid msg"
  shows "guid msg \<notin> seenGuids g \<and> guid msg \<in> seenGuids g1
       \<and> onMessage myId tr e g msg = (g1, [], None)
       \<and> (admit myId g2 msg' = (g2, Ignored) \<or> admit myId g2 msg' = (g2, Duplicate))
       \<and> onMessage myId tr e' g2 msg' = (g2, [], None)"
proof -
  have a: "guid msg \<notin> seenGuids g \<and> guid msg \<in> seenGuids g1"
    using assms(1) by (cases myId msg g rule: admit_cases) auto
  have b: "onMessage myId tr e g msg = (g1, [], None)"
    using assms(1) by (rule onMessage_dropped) simp
  from a gw_steps_seen [OF assms(2)] assms(3) have "guid msg' \<in> seenGuids g2"
    by auto
  then have c: "admit myId g2 msg' = (g2, Ignored) \<or> admit myId g2 msg' = (g2, Duplicate)"
    by (rule admit_seen_guid)
  then have d: "onMessage myId tr e' g2 msg' = (g2, [], None)"
    by (auto simp: onMessage_def)
  from a b c d show ?thesis by blast
qed

theorem busy_drop_is_final_witness:
  "admit ''me'' busyGateway (demoMsg ''g2'' ''pizza'') = (consumedGateway, Busy)
   \<and> gw_steps ''me'' demoTransport consumedGateway laterGateway
   \<and> \<not> processing laterGateway
   \<and> onMessage ''me'' demoTransport demoEnv laterGateway (demoMsg ''g2'' ''pizza'')
        = (laterGateway, [], None)"
proof -
  have "processing consumedGateway"
    by (simp add: consumedGateway_def busyGateway_def)
  then have "gw_step ''me'' demoTransport consumedGateway laterGateway"
    unfolding laterGateway_def by (rule gw_step.finish)
  then have st: "gw_steps ''me'' demoTransport consumedGateway laterGateway"
    by (simp add: gw_steps_def)
  have np: "\<not> processing laterGateway"
    by (simp add: laterGateway_def turn_def failed_def demoTransport_def Let_def
          split: prod.splits sum.splits)
  from busy_drop_is_final [OF admit_busyGateway st refl, of demoEnv demoEnv] admit_busyGateway st np
  show ?thesis by simp
qed

lemma echoOf_Some:
  assumes "sent \<in> set pending" and "sent = t \<or> take 200 sent = take 200 t"
  shows "\<exists>m. echoOf pending t = Some m \<and> m \<in> set pending \<and> take 200 m = take 200 t
           \<and> (t \<in> set pending \<longrightarrow> m = t)"
proof (cases "t \<in> set pending")
  case True
  then show ?thesis by (simp add: echoOf_def)
next
  case False
  with assms have "take 200 sent = take 200 t"
    by auto
  with assms(1) have "find (\<lambda>s. take 200 s = take 200 t) pending \<noteq> None"
    by (auto simp: find_None_iff)
  then obtain m where m: "find (\<lambda>s. take 200 s = take 200 t) pending = Some m"
    by auto
  then have "m \<in> set pending \<and> take 200 m = take 200 t"
    by (auto simp: find_Some_iff)
  with False m show ?thesis
    by (simp add: echoOf_def)
qed

lemma echoOf_None:
  "\<forall>s \<in> set pending. take 200 s \<noteq> take 200 t \<Longrightarrow> echoOf pending t = None"
  by (auto simp: echoOf_def find_None_iff)

lemma turn_effects: "\<exists>g' fx err. turn tr e g msg t = (g', HandleMessage t # fx, err)"
  by (simp add: turn_def failed_def Let_def split: prod.splits sum.splits option.splits)

lemma onMessage_echo_demo:
  "onMessage ''me'' demoTransport demoEnv demoGateway (demoMsg ''g3'' ''reply'')
     = (echoedGateway, [], None)"
proof -
  have "echoOf (botSentTexts demoGateway) ''reply'' = Some ''reply''"
    by (simp add: echoOf_def demoGateway_def)
  then have "admit ''me'' demoGateway (demoMsg ''g3'' ''reply'')
      = (demoGateway\<lparr>seenGuids := insert (guid (demoMsg ''g3'' ''reply'')) (seenGuids demoGateway),
           botSentTexts := set_delete ''reply'' (botSentTexts demoGateway)\<rparr>, Echo)"
    by (intro admit_echo) (simp_all add: demoMsg_inScope demoMsg_text, simp add: demoGateway_def demoMsg_def)
  then show ?thesis
    by (simp add: onMessage_def echoedGateway_def demoGateway_def demoMsg_def set_delete_def)
qed

text \<open>
  \<open>botSentTexts\<close> is in the order the replies were sent: a turn that ends appends at the
  end, an event that arrives deletes at most one text and moves none, and no text is
  held twice.
\<close>

lemma find_first:
  "find P xs = Some m \<Longrightarrow>
   \<exists>before after. xs = before @ m # after \<and> P m \<and> (\<forall>s \<in> set before. \<not> P s)"
proof (induction xs)
  case Nil
  then show ?case by simp
next
  case (Cons a xs)
  show ?case
  proof (cases "P a")
    case True
    with Cons(2) have "a # xs = [] @ m # xs \<and> P m \<and> (\<forall>s \<in> set []. \<not> P s)"
      by simp
    then show ?thesis by blast
  next
    case False
    with Cons obtain before after where
      "xs = before @ m # after" "P m" "\<forall>s \<in> set before. \<not> P s"
      by auto
    with False have "a # xs = (a # before) @ m # after \<and> P m \<and> (\<forall>s \<in> set (a # before). \<not> P s)"
      by simp
    then show ?thesis by blast
  qed
qed

lemma echoOf_oldest:
  assumes "echoOf pending t = Some m" and "t \<notin> set pending"
  shows "\<exists>before after. pending = before @ m # after \<and> take 200 m = take 200 t
           \<and> (\<forall>s \<in> set before. take 200 s \<noteq> take 200 t)
           \<and> (distinct pending \<longrightarrow> removeAll m pending = before @ after)"
proof -
  from assms have "find (\<lambda>sent. take 200 sent = take 200 t) pending = Some m"
    by (simp add: echoOf_def)
  from find_first [OF this] obtain before after where
    d: "pending = before @ m # after" "take 200 m = take 200 t"
       "\<forall>s \<in> set before. take 200 s \<noteq> take 200 t"
    by blast
  have "removeAll m pending = before @ after" if "distinct pending"
    using that d(1) by simp
  with d show ?thesis by blast
qed

lemma turn_appends: "\<exists>new. botSentTexts (fst (turn tr e g msg t)) = botSentTexts g @ new"
  by (auto simp: turn_def failed_def set_add_def Let_def
           split: prod.splits sum.splits option.splits)

lemma admit_pending:
  "botSentTexts (fst (admit myId g msg)) = botSentTexts g
   \<or> (\<exists>m. botSentTexts (fst (admit myId g msg)) = removeAll m (botSentTexts g))"
  by (auto simp: admit_def set_delete_def Let_def split: option.splits)

lemma turn_distinct:
  "distinct (botSentTexts g) \<Longrightarrow> distinct (botSentTexts (fst (turn tr e g msg t)))"
  by (auto simp: turn_def failed_def set_add_def Let_def
           split: prod.splits sum.splits option.splits)

lemma gw_step_distinct:
  "gw_step myId tr g g' \<Longrightarrow> distinct (botSentTexts g) \<Longrightarrow> distinct (botSentTexts g')"
proof (induction rule: gw_step.induct)
  case (arrive g msg)
  with admit_pending [of myId g msg] show ?case
    by (auto simp: distinct_removeAll)
next
  case (finish g e msg t)
  then show ?case by (simp add: turn_distinct)
qed

lemma threePending_echo:
  "onMessage ''me'' demoTransport demoEnv threePending (demoMsg ''e1'' (longReply (CHR ''3'')))
     = (threePending\<lparr>seenGuids := {''e1''}, botSentTexts := [''reply'', longReply (CHR ''2'')]\<rparr>,
        [], None)"
  by code_simp


lemma threePending_facts:
  "longReply (CHR ''1'') \<in> set (botSentTexts threePending)"
  "take 200 (longReply (CHR ''1'')) = take 200 (longReply (CHR ''3''))"
  "longReply (CHR ''3'') \<notin> set (botSentTexts threePending)"
  "distinct (botSentTexts threePending)"
  "take 200 ''reply'' \<noteq> take 200 (longReply (CHR ''3''))"
  "guid (demoMsg ''e1'' (longReply (CHR ''3''))) \<notin> seenGuids threePending"
  "inScope ''me'' (demoMsg ''e1'' (longReply (CHR ''3'')))"
  "trim (orElse (msg_text (demoMsg ''e1'' (longReply (CHR ''3'')))) []) = longReply (CHR ''3'')"
  by code_simp+


text \<open>
  C8, as the code has it. Take an event whose trimmed text \<open>t\<close> is a pending reply, or
  has the same first 200 characters as a pending reply. The event has no effect that can
  be observed (\<open>handleMessage\<close> is not called, nothing is sent) and the session is left
  as it was. If the event passes the scope filter and its identifier was not seen
  before, one pending reply is deleted: \<open>t\<close> itself when it is pending, else the oldest
  pending reply with the same first 200 characters, that is the one that no pending
  reply with these first 200 characters comes before; the replies before it and after
  it stay, in their order. Otherwise the gateway is left as it was. A later event with
  the same text, in scope, with a new identifier, on a gateway that is not processing,
  is handed to \<open>handleMessage\<close> when no reply still pending has the same first 200
  characters.
\<close>

theorem echo_suppressed:
  fixes myId :: string and tr :: transport and e :: env and g :: Gateway and msg :: Message
  defines "t \<equiv> trim (orElse (msg_text msg) [])"
  defines "g' \<equiv> fst (onMessage myId tr e g msg)"
  assumes "sent \<in> set (botSentTexts g)" and "sent = t \<or> take 200 sent = take 200 t"
  shows "snd (onMessage myId tr e g msg) = ([], None)
   \<and> session g' = session g
   \<and> (inScope myId msg \<and> guid msg \<notin> seenGuids g \<longrightarrow>
        (\<exists>matched. echoOf (botSentTexts g) t = Some matched
           \<and> matched \<in> set (botSentTexts g) \<and> take 200 matched = take 200 t
           \<and> (t \<in> set (botSentTexts g) \<longrightarrow> matched = t)
           \<and> (t \<notin> set (botSentTexts g) \<longrightarrow>
                (\<exists>before after. botSentTexts g = before @ matched # after
                   \<and> (\<forall>s \<in> set before. take 200 s \<noteq> take 200 t)
                   \<and> (distinct (botSentTexts g) \<longrightarrow> botSentTexts g' = before @ after)))
           \<and> botSentTexts g' = removeAll matched (botSentTexts g)
           \<and> matched \<notin> set (botSentTexts g')))
   \<and> (\<not> (inScope myId msg \<and> guid msg \<notin> seenGuids g) \<longrightarrow> g' = g)
   \<and> (\<forall>msg2 e2. inScope myId msg2 \<and> guid msg2 \<notin> seenGuids g'
          \<and> trim (orElse (msg_text msg2) []) = t \<and> \<not> processing g'
          \<and> (\<forall>s \<in> set (botSentTexts g'). take 200 s \<noteq> take 200 t) \<longrightarrow>
        (\<exists>g'' fx err. onMessage myId tr e2 g' msg2 = (g'', HandleMessage t # fx, err)))"
proof -
  from echoOf_Some [OF assms(3,4)] obtain m where
    m: "echoOf (botSentTexts g) t = Some m" "m \<in> set (botSentTexts g)"
       "take 200 m = take 200 t" "t \<in> set (botSentTexts g) \<longrightarrow> m = t"
    by blast
  have a: "snd (onMessage myId tr e g msg) = ([], None) \<and> session g' = session g
     \<and> (inScope myId msg \<and> guid msg \<notin> seenGuids g \<longrightarrow>
          botSentTexts g' = removeAll m (botSentTexts g))
     \<and> (\<not> (inScope myId msg \<and> guid msg \<notin> seenGuids g) \<longrightarrow> g' = g)"
  proof (cases myId msg g rule: admit_cases)
    case ignored
    then show ?thesis by (simp add: onMessage_def g'_def)
  next
    case duplicate
    then show ?thesis by (simp add: onMessage_def g'_def)
  next
    case (echo sent')
    with m(1) show ?thesis by (simp add: onMessage_def g'_def t_def set_delete_def)
  next
    case busy
    with m(1) show ?thesis by (simp add: t_def)
  next
    case admitted
    with m(1) show ?thesis by (simp add: t_def)
  qed
  have c: "\<exists>before after. botSentTexts g = before @ m # after
             \<and> (\<forall>s \<in> set before. take 200 s \<noteq> take 200 t)
             \<and> (distinct (botSentTexts g) \<longrightarrow> botSentTexts g' = before @ after)"
    if "inScope myId msg" "guid msg \<notin> seenGuids g" "t \<notin> set (botSentTexts g)"
  proof -
    from echoOf_oldest [OF m(1) that(3)] obtain before after where
      "botSentTexts g = before @ m # after" "\<forall>s \<in> set before. take 200 s \<noteq> take 200 t"
      "distinct (botSentTexts g) \<longrightarrow> removeAll m (botSentTexts g) = before @ after"
      by blast
    moreover from a that have "botSentTexts g' = removeAll m (botSentTexts g)"
      by simp
    ultimately show ?thesis by auto
  qed
  have b: "\<exists>g'' fx err. onMessage myId tr e2 g' msg2 = (g'', HandleMessage t # fx, err)"
    if "inScope myId msg2" "guid msg2 \<notin> seenGuids g'" "trim (orElse (msg_text msg2) []) = t"
       "\<not> processing g'" "\<forall>s \<in> set (botSentTexts g'). take 200 s \<noteq> take 200 t"
    for msg2 e2
  proof -
    from that(5) have "echoOf (botSentTexts g') t = None"
      by (rule echoOf_None)
    with that(1,2,3,4) have "admit myId g' msg2 =
       (g'\<lparr>seenGuids := insert (guid msg2) (seenGuids g'), processing := True\<rparr>, Admitted t)"
      using admit_admitted [of myId msg2 g'] by simp
    then have "onMessage myId tr e2 g' msg2 =
       turn tr e2 (g'\<lparr>seenGuids := insert (guid msg2) (seenGuids g'), processing := True\<rparr>) msg2 t"
      by (rule onMessage_admitted)
    with turn_effects show ?thesis by simp
  qed
  have d: "inScope myId msg \<and> guid msg \<notin> seenGuids g \<longrightarrow>
        (\<exists>matched. echoOf (botSentTexts g) t = Some matched
           \<and> matched \<in> set (botSentTexts g) \<and> take 200 matched = take 200 t
           \<and> (t \<in> set (botSentTexts g) \<longrightarrow> matched = t)
           \<and> (t \<notin> set (botSentTexts g) \<longrightarrow>
                (\<exists>before after. botSentTexts g = before @ matched # after
                   \<and> (\<forall>s \<in> set before. take 200 s \<noteq> take 200 t)
                   \<and> (distinct (botSentTexts g) \<longrightarrow> botSentTexts g' = before @ after)))
           \<and> botSentTexts g' = removeAll matched (botSentTexts g)
           \<and> matched \<notin> set (botSentTexts g'))"
  proof (intro impI, elim conjE)
    assume s: "inScope myId msg" "guid msg \<notin> seenGuids g"
    with a have r: "botSentTexts g' = removeAll m (botSentTexts g)"
      by simp
    then have "m \<notin> set (botSentTexts g')"
      by simp
    with m r c [OF s] show "\<exists>matched. echoOf (botSentTexts g) t = Some matched
           \<and> matched \<in> set (botSentTexts g) \<and> take 200 matched = take 200 t
           \<and> (t \<in> set (botSentTexts g) \<longrightarrow> matched = t)
           \<and> (t \<notin> set (botSentTexts g) \<longrightarrow>
                (\<exists>before after. botSentTexts g = before @ matched # after
                   \<and> (\<forall>s \<in> set before. take 200 s \<noteq> take 200 t)
                   \<and> (distinct (botSentTexts g) \<longrightarrow> botSentTexts g' = before @ after)))
           \<and> botSentTexts g' = removeAll matched (botSentTexts g)
           \<and> matched \<notin> set (botSentTexts g')"
      by (intro exI [of _ m]) blast
  qed
  from a b d show ?thesis
    by (simp del: split_paired_All split_paired_Ex)
qed

theorem echo_suppressed_witness:
  "''reply'' \<in> set (botSentTexts demoGateway)
   \<and> inScope ''me'' (demoMsg ''g3'' ''reply'')
   \<and> guid (demoMsg ''g3'' ''reply'') \<notin> seenGuids demoGateway
   \<and> onMessage ''me'' demoTransport demoEnv demoGateway (demoMsg ''g3'' ''reply'')
        = (echoedGateway, [], None)
   \<and> botSentTexts echoedGateway = removeAll ''reply'' (botSentTexts demoGateway)
   \<and> (\<exists>g'' fx err. onMessage ''me'' demoTransport demoEnv echoedGateway (demoMsg ''g4'' ''reply'')
          = (g'', HandleMessage ''reply'' # fx, err))
   \<and> longReply (CHR ''1'') \<in> set (botSentTexts threePending)
   \<and> take 200 (longReply (CHR ''1'')) = take 200 (longReply (CHR ''3''))
   \<and> longReply (CHR ''3'') \<notin> set (botSentTexts threePending)
   \<and> inScope ''me'' (demoMsg ''e1'' (longReply (CHR ''3'')))
   \<and> guid (demoMsg ''e1'' (longReply (CHR ''3''))) \<notin> seenGuids threePending
   \<and> distinct (botSentTexts threePending)
   \<and> (\<exists>matched before after.
          botSentTexts threePending = before @ matched # after
        \<and> take 200 matched = take 200 (longReply (CHR ''3''))
        \<and> (\<forall>s \<in> set before. take 200 s \<noteq> take 200 (longReply (CHR ''3'')))
        \<and> botSentTexts (fst (onMessage ''me'' demoTransport demoEnv threePending
                                  (demoMsg ''e1'' (longReply (CHR ''3''))))) = before @ after)
   \<and> botSentTexts (fst (onMessage ''me'' demoTransport demoEnv threePending
                             (demoMsg ''e1'' (longReply (CHR ''3'')))))
        = [''reply'', longReply (CHR ''2'')]"
proof -
  have h1: "''reply'' \<in> set (botSentTexts demoGateway)"
    by (simp add: demoGateway_def)
  have h2: "''reply'' = trim (orElse (msg_text (demoMsg ''g3'' ''reply'')) [])
      \<or> take 200 ''reply'' = take 200 (trim (orElse (msg_text (demoMsg ''g3'' ''reply'')) []))"
    by (simp add: demoMsg_text)
  have h3: "guid (demoMsg ''g3'' ''reply'') \<notin> seenGuids demoGateway"
    by (simp add: demoGateway_def demoMsg_def)
  have h4: "botSentTexts echoedGateway = removeAll ''reply'' (botSentTexts demoGateway)"
    by (simp add: echoedGateway_def demoGateway_def)
  have h5: "inScope ''me'' (demoMsg ''g4'' ''reply'')
      \<and> guid (demoMsg ''g4'' ''reply'') \<notin> seenGuids echoedGateway
      \<and> trim (orElse (msg_text (demoMsg ''g4'' ''reply'')) []) = ''reply''
      \<and> \<not> processing echoedGateway
      \<and> (\<forall>s \<in> set (botSentTexts echoedGateway). take 200 s \<noteq> take 200 ''reply'')"
    by (simp add: demoMsg_inScope demoMsg_text, simp add: echoedGateway_def demoGateway_def demoMsg_def)
  from echo_suppressed [OF h1 h2, of "''me''" demoTransport demoEnv]
  have "\<forall>msg2 e2. inScope ''me'' msg2 \<and> guid msg2 \<notin> seenGuids echoedGateway
          \<and> trim (orElse (msg_text msg2) []) = ''reply'' \<and> \<not> processing echoedGateway
          \<and> (\<forall>s \<in> set (botSentTexts echoedGateway). take 200 s \<noteq> take 200 ''reply'') \<longrightarrow>
        (\<exists>g'' fx err. onMessage ''me'' demoTransport e2 echoedGateway msg2
           = (g'', HandleMessage ''reply'' # fx, err))"
    by (simp add: onMessage_echo_demo demoMsg_text)
  with h5 have a: "\<exists>g'' fx err. onMessage ''me'' demoTransport demoEnv echoedGateway
       (demoMsg ''g4'' ''reply'') = (g'', HandleMessage ''reply'' # fx, err)"
    by blast
  let ?g' = "fst (onMessage ''me'' demoTransport demoEnv threePending
                    (demoMsg ''e1'' (longReply (CHR ''3''))))"
  have k1: "longReply (CHR ''1'') \<in> set (botSentTexts threePending)"
    by (rule threePending_facts)
  have k2: "longReply (CHR ''1'') = trim (orElse (msg_text (demoMsg ''e1'' (longReply (CHR ''3'')))) [])
      \<or> take 200 (longReply (CHR ''1''))
          = take 200 (trim (orElse (msg_text (demoMsg ''e1'' (longReply (CHR ''3'')))) []))"
    by (simp add: threePending_facts)
  from echo_suppressed [OF k1 k2, of "''me''" demoTransport demoEnv]
  have "\<exists>matched. take 200 matched = take 200 (longReply (CHR ''3''))
          \<and> (\<exists>before after. botSentTexts threePending = before @ matched # after
                \<and> (\<forall>s \<in> set before. take 200 s \<noteq> take 200 (longReply (CHR ''3'')))
                \<and> botSentTexts ?g' = before @ after)"
    by (simp add: threePending_facts) blast
  then have b: "\<exists>matched before after.
          botSentTexts threePending = before @ matched # after
        \<and> take 200 matched = take 200 (longReply (CHR ''3''))
        \<and> (\<forall>s \<in> set before. take 200 s \<noteq> take 200 (longReply (CHR ''3'')))
        \<and> botSentTexts ?g' = before @ after"
    by blast
  have c: "botSentTexts ?g' = [''reply'', longReply (CHR ''2'')]"
    by (simp add: threePending_echo)
  from h1 h3 h4 onMessage_echo_demo demoMsg_inScope(2) a b c threePending_facts show ?thesis
    by (simp del: split_paired_All split_paired_Ex)
qed

text \<open>The example gateway arises from the start by the events \<open>a\<close>, \<open>b\<close> and \<open>c\<close>.\<close>

lemma lower_reset: "trim (toLowerCase ''reset'') = ''reset''"
  by code_simp

lemma turn_reset_demo:
  "session g = reset \<Longrightarrow>
   turn demoTransport demoEnv g (demoMsg gid ''reset'') ''reset''
     = (g\<lparr>botSentTexts := set_add ''reply'' (botSentTexts g), processing := False\<rparr>,
        [HandleMessage ''reset'', Send ''me'' ''reply''], None)"
  using handleMessage_reset_cmd [of "''reset''" demoEnv reset] lower_reset
  by (simp add: turn_def demoTransport_def demoMsg_def Let_def)

lemma demoGateway_run_a:
  "onMessage ''me'' demoTransport demoEnv startGateway (demoMsg ''a'' ''reset'')
     = (startGateway\<lparr>botSentTexts := [''reply''], seenGuids := {''a''}\<rparr>,
        [HandleMessage ''reset'', Send ''me'' ''reply''], None)"
proof -
  have "admit ''me'' startGateway (demoMsg ''a'' ''reset'')
     = (startGateway\<lparr>seenGuids := insert (guid (demoMsg ''a'' ''reset'')) (seenGuids startGateway),
          processing := True\<rparr>, Admitted (trim (orElse (msg_text (demoMsg ''a'' ''reset'')) [])))"
    by (intro admit_admitted)
       (simp_all add: demoMsg_inScope demoMsg_text, simp_all add: startGateway_def echoOf_def)
  then show ?thesis
    by (simp add: onMessage_def demoMsg_text turn_reset_demo startGateway_def,
        simp add: startGateway_def demoMsg_def set_add_def)
qed

lemma demoGateway_run_b:
  "onMessage ''me'' demoTransport demoEnv
      (startGateway\<lparr>botSentTexts := [''reply''], seenGuids := {''a''}\<rparr>) (demoMsg ''b'' ''reply'')
     = (startGateway\<lparr>seenGuids := {''b'', ''a''}\<rparr>, [], None)"
proof -
  let ?g = "startGateway\<lparr>botSentTexts := [''reply''], seenGuids := {''a''}\<rparr>"
  have "admit ''me'' ?g (demoMsg ''b'' ''reply'')
     = (?g\<lparr>seenGuids := insert (guid (demoMsg ''b'' ''reply'')) (seenGuids ?g),
           botSentTexts := set_delete ''reply'' (botSentTexts ?g)\<rparr>, Echo)"
    by (intro admit_echo)
       (simp_all add: demoMsg_inScope demoMsg_text, simp_all add: demoMsg_def echoOf_def)
  then show ?thesis
    by (simp add: onMessage_def, simp add: startGateway_def demoMsg_def set_delete_def)
qed

lemma demoGateway_run_c:
  "onMessage ''me'' demoTransport demoEnv
      (startGateway\<lparr>seenGuids := {''b'', ''a''}\<rparr>) (demoMsg ''c'' ''reset'')
     = (demoGateway, [HandleMessage ''reset'', Send ''me'' ''reply''], None)"
proof -
  let ?g = "startGateway\<lparr>seenGuids := {''b'', ''a''}\<rparr>"
  have "admit ''me'' ?g (demoMsg ''c'' ''reset'')
     = (?g\<lparr>seenGuids := insert (guid (demoMsg ''c'' ''reset'')) (seenGuids ?g),
          processing := True\<rparr>, Admitted (trim (orElse (msg_text (demoMsg ''c'' ''reset'')) [])))"
    by (intro admit_admitted)
       (simp_all add: demoMsg_inScope demoMsg_text, simp_all add: startGateway_def demoMsg_def echoOf_def)
  then show ?thesis
    by (simp add: onMessage_def demoMsg_text turn_reset_demo startGateway_def,
        simp add: startGateway_def demoGateway_def demoMsg_def set_add_def)
qed

lemma demoGateway_run:
  "fst (onMessage ''me'' demoTransport demoEnv
     (fst (onMessage ''me'' demoTransport demoEnv
        (fst (onMessage ''me'' demoTransport demoEnv startGateway (demoMsg ''a'' ''reset'')))
        (demoMsg ''b'' ''reply'')))
     (demoMsg ''c'' ''reset'')) = demoGateway"
  by (simp add: demoGateway_run_a demoGateway_run_b demoGateway_run_c)

text \<open>
  C8 as stated fails when the event is stopped before the echo check. The gateway has
  handled the user's \<open>reset\<close> (event \<open>a\<close>), dropped the echo of its reply (event \<open>b\<close>)
  and handled a second \<open>reset\<close> (event \<open>c\<close>), so that the reply is pending again. The
  transport delivers event \<open>b\<close> once more: its text is the pending reply, it is dropped
  as a duplicate, and the reply stays pending.
\<close>

theorem seen_guid_echo_counterexample:
  "fst (onMessage ''me'' demoTransport demoEnv
     (fst (onMessage ''me'' demoTransport demoEnv
        (fst (onMessage ''me'' demoTransport demoEnv startGateway (demoMsg ''a'' ''reset'')))
        (demoMsg ''b'' ''reply'')))
     (demoMsg ''c'' ''reset'')) = demoGateway
   \<and> inScope ''me'' (demoMsg ''b'' ''reply'')
   \<and> trim (orElse (msg_text (demoMsg ''b'' ''reply'')) []) = ''reply''
   \<and> ''reply'' \<in> set (botSentTexts demoGateway)
   \<and> onMessage ''me'' demoTransport demoEnv demoGateway (demoMsg ''b'' ''reply'')
        = (demoGateway, [], None)
   \<and> \<not> ''reply'' \<notin> set (botSentTexts
          (fst (onMessage ''me'' demoTransport demoEnv demoGateway (demoMsg ''b'' ''reply''))))"
proof -
  have "guid (demoMsg ''b'' ''reply'') \<in> seenGuids demoGateway"
    by (simp add: demoGateway_def demoMsg_def)
  with demoMsg_inScope(2) have "admit ''me'' demoGateway (demoMsg ''b'' ''reply'')
      = (demoGateway, Duplicate)"
    by (rule admit_duplicate)
  then have "onMessage ''me'' demoTransport demoEnv demoGateway (demoMsg ''b'' ''reply'')
      = (demoGateway, [], None)"
    by (simp add: onMessage_def)
  moreover have "''reply'' \<in> set (botSentTexts demoGateway)"
    by (simp add: demoGateway_def)
  ultimately show ?thesis
    using demoGateway_run by (simp add: demoMsg_inScope demoMsg_text)
qed

text \<open>
  Why a text typed again is handled only when no pending reply shares its first 200
  characters: with two such replies pending, the echo of the first removes the
  first, and the same text typed again is taken as the echo of the second and dropped.
\<close>

lemma retyped_text_dropped_again:
  "snd (onMessage ''me'' demoTransport demoEnv twoPending (demoMsg ''e1'' (longReply (CHR ''1''))))
     = ([], None)
   \<and> botSentTexts (fst (onMessage ''me'' demoTransport demoEnv twoPending
          (demoMsg ''e1'' (longReply (CHR ''1''))))) = [longReply (CHR ''2'')]
   \<and> snd (onMessage ''me'' demoTransport demoEnv
          (fst (onMessage ''me'' demoTransport demoEnv twoPending
             (demoMsg ''e1'' (longReply (CHR ''1'')))))
          (demoMsg ''e2'' (longReply (CHR ''1'')))) = ([], None)"
  by code_simp

end
